theory Spec2Isabelle
  imports Complex_Main "HOL-Library.AList"
begin

section \<open>Symbols, scopes and the object store\<close>

text \<open>
  Every \<^verbatim>\<open>emp::Ptr<Symbol>\<close> of the source is an address into an explicit store;
  \<^verbatim>\<open>nullptr\<close> is \<open>None\<close>. Addresses are handed out by a counter and never reused, so
  a released object stays distinguishable from every later one.

  A \<^verbatim>\<open>double\<close> is carried as a real number. The model never computes on such a
  value itself: arithmetic happens only inside the closures bound to operator nodes and
  functions, and those are parameters.
\<close>

type_synonym addr = nat

text \<open>
  The ways evaluation can stop: a failed \<^verbatim>\<open>emp_assert\<close>, a dereference of a null or of a
  released pointer, a failed coercion, a call of a non-function, a scope operation on an
  object that is no scope. \<open>OutOfFuel\<close> is not an error of the program: it is the value
  of a recursion through the store (parent links, owned entries) that was cut off.
\<close>

datatype error =
    AssertFail | NullDeref | DanglingPtr | TypeMismatch | NotCallable | NotScope | OutOfFuel

text \<open>
  The kinds of Symbol this part of the program creates or inspects: the two raw variables
  (\<^verbatim>\<open>Symbol_DoubleVar\<close>, \<^verbatim>\<open>Symbol_StringVar\<close>), a function (its closure named by an
  index into the environment's table), and \<^verbatim>\<open>Symbol_Scope\<close> with its members
  \<^verbatim>\<open>symbol_table\<close>, \<^verbatim>\<open>obj_ptr\<close> and \<^verbatim>\<open>obj_owned\<close>. The table is an association list
  with unique keys, read with \<open>map_of\<close> and written with \<open>AList.update\<close>.
\<close>

datatype content =
    DoubleVar real
  | StringVar string
  | Function nat
  | Scope "(string \<times> addr) list" "nat option" bool

record symbol =
  name :: string
  desc :: string
  scope :: "addr option"
  is_temporary :: bool
  is_builtin :: bool
  content :: content

definition IsScope :: "symbol \<Rightarrow> bool" where
  "IsScope sm = (case content sm of Scope tbl obj owned \<Rightarrow> True | _ \<Rightarrow> False)"

fun symbol_table :: "symbol \<Rightarrow> (string \<times> addr) list" where
  "symbol_table sm = (case content sm of Scope tbl obj owned \<Rightarrow> tbl | _ \<Rightarrow> [])"

fun obj_ptr :: "symbol \<Rightarrow> nat option" where
  "obj_ptr sm = (case content sm of Scope tbl obj owned \<Rightarrow> obj | _ \<Rightarrow> None)"

fun obj_owned :: "symbol \<Rightarrow> bool" where
  "obj_owned sm = (case content sm of Scope tbl obj owned \<Rightarrow> owned | _ \<Rightarrow> False)"

text \<open>
  The state: the store of Symbols, the allocation counter, the set of live host objects
  (\<^verbatim>\<open>EmplodeType\<close> instances a scope may wrap), and the host's own state, which only the
  event setup closures touch.
\<close>

record 'h state =
  heap :: "addr \<rightharpoonup> symbol"
  next_addr :: addr
  objects :: "nat set"
  host :: 'h

definition deref :: "'h state \<Rightarrow> addr option \<Rightarrow> error + symbol" where
  "deref s p =
     (case p of
        None \<Rightarrow> Inl NullDeref
      | Some a \<Rightarrow> (case heap s a of None \<Rightarrow> Inl DanglingPtr | Some sm \<Rightarrow> Inr sm))"

definition NewPtr :: "symbol \<Rightarrow> 'h state \<Rightarrow> addr \<times> 'h state" where
  "NewPtr sm s =
     (next_addr s, s\<lparr>heap := (heap s)(next_addr s \<mapsto> sm), next_addr := Suc (next_addr s)\<rparr>)"

subsection \<open>Releasing a Symbol\<close>

text \<open>
  \<^verbatim>\<open>ptr.Delete()\<close> runs the destructor and frees the object. For a scope the destructor
  (\<^verbatim>\<open>~Symbol_Scope\<close>) first deletes the host object if it is owned, then every entry of
  the table. The recursion follows the store, so it carries fuel; \<open>Delete\<close> gives it the
  number of addresses ever allocated, which bounds the depth of any ownership tree.
\<close>

definition delete_object :: "nat option \<Rightarrow> 'h state \<Rightarrow> error + 'h state" where
  "delete_object obj s =
     (case obj of
        None \<Rightarrow> Inl NullDeref
      | Some k \<Rightarrow> if k \<in> objects s then Inr (s\<lparr>objects := objects s - {k}\<rparr>) else Inl DanglingPtr)"

fun destroy :: "nat \<Rightarrow> addr \<Rightarrow> 'h state \<Rightarrow> error + 'h state"
and destroy_entries :: "nat \<Rightarrow> (string \<times> addr) list \<Rightarrow> 'h state \<Rightarrow> error + 'h state"
where
  "destroy 0 p s = Inl OutOfFuel"
| "destroy (Suc n) p s =
     (case heap s p of
        None \<Rightarrow> Inl DanglingPtr
      | Some sm \<Rightarrow>
          (case content sm of
             Scope tbl obj owned \<Rightarrow>
               (case (if owned then delete_object obj s else Inr s) of
                  Inl e \<Rightarrow> Inl e
                | Inr s1 \<Rightarrow>
                    (case destroy_entries n tbl s1 of
                       Inl e \<Rightarrow> Inl e
                     | Inr s2 \<Rightarrow> Inr (s2\<lparr>heap := (heap s2)(p := None)\<rparr>)))
           | _ \<Rightarrow> Inr (s\<lparr>heap := (heap s)(p := None)\<rparr>)))"
| "destroy_entries n [] s = Inr s"
| "destroy_entries n (e # rest) s =
     (case destroy n (snd e) s of
        Inl err \<Rightarrow> Inl err
      | Inr s1 \<Rightarrow> destroy_entries n rest s1)"

definition Delete :: "addr \<Rightarrow> 'h state \<Rightarrow> error + 'h state" where
  "Delete p s = destroy (Suc (next_addr s)) p s"

text \<open>
  The idiom \<^verbatim>\<open>if (in->IsTemporary()) in.Delete();\<close> that every consuming node uses.
\<close>

definition release_if_temporary :: "addr option \<Rightarrow> 'h state \<Rightarrow> error + 'h state" where
  "release_if_temporary p s =
     (case p of
        None \<Rightarrow> Inl NullDeref
      | Some a \<Rightarrow>
          (case heap s a of
             None \<Rightarrow> Inl DanglingPtr
           | Some sm \<Rightarrow> if is_temporary sm then Delete a s else Inr s))"

subsection \<open>Scope operations\<close>

text \<open>
  \<^verbatim>\<open>Symbol_Scope::Add<T>(name, args...)\<close>: construct the entry, assert that the name is
  unused, insert it. The constructor of \<open>T\<close> with its further arguments applied is the
  parameter \<open>ctor\<close>; it receives the name. The entry is allocated before the assertion is
  checked, as in the source. A failed assertion aborts: the result carries no state.
\<close>

definition Add :: "addr \<Rightarrow> string \<Rightarrow> (string \<Rightarrow> symbol) \<Rightarrow> 'h state \<Rightarrow> error + (addr \<times> 'h state)" where
  "Add this nm ctor s =
     (case heap s this of
        None \<Rightarrow> Inl DanglingPtr
      | Some sc \<Rightarrow>
          (case content sc of
             Scope tbl obj owned \<Rightarrow>
               (case NewPtr (ctor nm) s of
                  (new_ptr, s1) \<Rightarrow>
                    if map_of tbl nm \<noteq> None then Inl AssertFail
                    else Inr (new_ptr,
                      s1\<lparr>heap := (heap s1)(this \<mapsto>
                        sc\<lparr>content := Scope (AList.update nm new_ptr tbl) obj owned\<rparr>)\<rparr>))
           | _ \<Rightarrow> Inl NotScope))"

text \<open>
  The constructors of the entry kinds, in the argument order of the source
  (name, initial value or closure, description, owning scope). A new Symbol is neither
  temporary nor builtin.
\<close>

definition Symbol_DoubleVar :: "real \<Rightarrow> string \<Rightarrow> addr option \<Rightarrow> string \<Rightarrow> symbol" where
  "Symbol_DoubleVar v d sc nm =
     \<lparr>name = nm, desc = d, scope = sc, is_temporary = False, is_builtin = False,
      content = DoubleVar v\<rparr>"

definition Symbol_StringVar :: "string \<Rightarrow> string \<Rightarrow> addr option \<Rightarrow> string \<Rightarrow> symbol" where
  "Symbol_StringVar v d sc nm =
     \<lparr>name = nm, desc = d, scope = sc, is_temporary = False, is_builtin = False,
      content = StringVar v\<rparr>"

definition Symbol_Function :: "nat \<Rightarrow> string \<Rightarrow> addr option \<Rightarrow> string \<Rightarrow> symbol" where
  "Symbol_Function k d sc nm =
     \<lparr>name = nm, desc = d, scope = sc, is_temporary = False, is_builtin = False,
      content = Function k\<rparr>"

definition Symbol_Scope :: "string \<Rightarrow> addr option \<Rightarrow> nat option \<Rightarrow> bool \<Rightarrow> string \<Rightarrow> symbol" where
  "Symbol_Scope d sc obj owned nm =
     \<lparr>name = nm, desc = d, scope = sc, is_temporary = False, is_builtin = False,
      content = Scope [] obj owned\<rparr>"

definition AddStringVar :: "addr \<Rightarrow> string \<Rightarrow> string \<Rightarrow> 'h state \<Rightarrow> error + (addr \<times> 'h state)" where
  "AddStringVar this nm d = Add this nm (Symbol_StringVar [] d (Some this))"

definition AddValueVar :: "addr \<Rightarrow> string \<Rightarrow> string \<Rightarrow> 'h state \<Rightarrow> error + (addr \<times> 'h state)" where
  "AddValueVar this nm d = Add this nm (Symbol_DoubleVar 0 d (Some this))"

definition AddScope :: "addr \<Rightarrow> string \<Rightarrow> string \<Rightarrow> nat option \<Rightarrow> bool \<Rightarrow> 'h state \<Rightarrow> error + (addr \<times> 'h state)" where
  "AddScope this nm d obj owned = Add this nm (Symbol_Scope d (Some this) obj owned)"

definition AddFunction :: "addr \<Rightarrow> string \<Rightarrow> nat \<Rightarrow> string \<Rightarrow> 'h state \<Rightarrow> error + (addr \<times> 'h state)" where
  "AddFunction this nm k d = Add this nm (Symbol_Function k d (Some this))"

text \<open>
  \<^verbatim>\<open>Symbol_Scope::LookupSymbol(name, scan_scopes)\<close>. The call on the parent passes no
  second argument, so it scans. The recursion follows the parent links of the store and
  carries fuel: one unit per scope visited.
\<close>

fun LookupSymbol :: "nat \<Rightarrow> 'h state \<Rightarrow> addr \<Rightarrow> string \<Rightarrow> bool \<Rightarrow> error + addr option" where
  "LookupSymbol 0 s this nm scan_scopes = Inl OutOfFuel"
| "LookupSymbol (Suc n) s this nm scan_scopes =
     (case heap s this of
        None \<Rightarrow> Inl DanglingPtr
      | Some sc \<Rightarrow>
          (case content sc of
             Scope tbl obj owned \<Rightarrow>
               (case map_of tbl nm of
                  None \<Rightarrow>
                    (case scope sc of
                       None \<Rightarrow> Inr None
                     | Some parent \<Rightarrow>
                         if \<not> scan_scopes then Inr None
                         else LookupSymbol n s parent nm True)
                | Some p \<Rightarrow> Inr (Some p))
           | _ \<Rightarrow> Inl NotScope))"

text \<open>
  Modelled from the spec: the copy constructor of the base class \<^verbatim>\<open>Symbol\<close> is not in
  the files at hand; a copy takes every field of the base part from the original.
\<close>

definition Symbol_copy :: "symbol \<Rightarrow> symbol" where
  "Symbol_copy in_sm = in_sm"

text \<open>
  Modelled from the spec: \<^verbatim>\<open>Clone()\<close> of a variable or of a function is not in the files
  at hand; it is a deep copy, a new object with the fields of the original.
\<close>

definition Clone_value :: "symbol \<Rightarrow> 'h state \<Rightarrow> addr \<times> 'h state" where
  "Clone_value sm s = NewPtr (Symbol_copy sm) s"

text \<open>
  \<^verbatim>\<open>Symbol_Scope::Clone()\<close> allocates a new scope through the copy constructor
  \<^verbatim>\<open>Symbol_Scope(const Symbol_Scope & in) : Symbol(in)\<close>. Only the base part is copied
  from \<open>in\<close>; the members \<^verbatim>\<open>symbol_table\<close>, \<^verbatim>\<open>obj_ptr\<close> and \<^verbatim>\<open>obj_owned\<close> take their
  defaults (empty, null, false). The loop of the constructor body,
  \<^verbatim>\<open>for (auto [name, ptr] : symbol_table) { symbol_table[name] = ptr->Clone(); }\<close>,
  ranges over the \<^verbatim>\<open>symbol_table\<close> of the object under construction and replaces each of
  its entries by a clone. The recursion follows the store and carries fuel.
\<close>

fun set_entry :: "addr \<Rightarrow> string \<Rightarrow> addr \<Rightarrow> 'h state \<Rightarrow> error + 'h state" where
  "set_entry this nm p s =
     (case heap s this of
        None \<Rightarrow> Inl DanglingPtr
      | Some sc \<Rightarrow>
          (case content sc of
             Scope tbl obj owned \<Rightarrow>
               Inr (s\<lparr>heap := (heap s)(this \<mapsto> sc\<lparr>content := Scope (AList.update nm p tbl) obj owned\<rparr>)\<rparr>)
           | _ \<Rightarrow> Inl NotScope))"

fun Clone :: "nat \<Rightarrow> addr \<Rightarrow> 'h state \<Rightarrow> error + (addr \<times> 'h state)"
and clone_entries :: "nat \<Rightarrow> addr \<Rightarrow> (string \<times> addr) list \<Rightarrow> 'h state \<Rightarrow> error + 'h state"
where
  "Clone 0 this s = Inl OutOfFuel"
| "Clone (Suc n) this s =
     (case heap s this of
        None \<Rightarrow> Inl DanglingPtr
      | Some sm \<Rightarrow>
          (case content sm of
             Scope in_tbl in_obj in_owned \<Rightarrow>
               (case NewPtr ((Symbol_copy sm)\<lparr>content := Scope [] None False\<rparr>) s of
                  (new_ptr, s1) \<Rightarrow>
                    (case heap s1 new_ptr of
                       None \<Rightarrow> Inl DanglingPtr
                     | Some new_sm \<Rightarrow>
                         (case clone_entries n new_ptr (symbol_table new_sm) s1 of
                            Inl e \<Rightarrow> Inl e
                          | Inr s2 \<Rightarrow> Inr (new_ptr, s2))))
           | _ \<Rightarrow> Inr (Clone_value sm s)))"
| "clone_entries n new_ptr [] s = Inr s"
| "clone_entries n new_ptr (e # rest) s =
     (case Clone n (snd e) s of
        Inl err \<Rightarrow> Inl err
      | Inr (q, s1) \<Rightarrow>
          (case set_entry new_ptr (fst e) q s1 of
             Inl err \<Rightarrow> Inl err
           | Inr s2 \<Rightarrow> clone_entries n new_ptr rest s2))"

section \<open>The AST and its evaluation\<close>

text \<open>
  The node classes of \<^verbatim>\<open>AST.hpp\<close>. An internal node has its name and its vector of
  children; \<^verbatim>\<open>ASTNode_Assign\<close> and \<^verbatim>\<open>ASTNode_Call\<close> leave the name empty, so only the
  children are kept. A leaf has \<^verbatim>\<open>symbol_ptr\<close> and \<^verbatim>\<open>own_symbol\<close>, a block its
  \<^verbatim>\<open>scope_ptr\<close>. The closure of \<^verbatim>\<open>ASTNode_Math1\<close> is a function on doubles. The template
  \<^verbatim>\<open>ASTNode_Op2<RETURN_T, ARG1_T, ARG2_T>\<close> is instantiated at doubles and strings: a
  native value is one or the other, the two argument types are stored in the node, and the
  return type is that of the value the closure gives. The setup closure of an event
  receives a node, so the node holds an index into the environment's table of closures.
\<close>

datatype native = NDouble real | NString string

datatype native_type = TDouble | TString

datatype node =
    ASTNode_Leaf addr bool
  | ASTNode_Block addr "node list"
  | ASTNode_Math1 string "real \<Rightarrow> real" "node list"
  | ASTNode_Op2 string native_type native_type "native \<Rightarrow> native \<Rightarrow> native" "node list"
  | ASTNode_Assign "node list"
  | ASTNode_Call "node list"
  | ASTNode_Event string nat "node list"

text \<open>
  What the files at hand use of the Symbol kinds without defining it is a parameter of
  evaluation: the two coercions (\<open>None\<close> when the storage cannot represent the type), the
  closures of function Symbols (from the argument Symbols to the content of the result,
  \<open>None\<close> when the arguments do not fit), and the setup closures of events, which act on
  the host's state.
\<close>

record 'h env =
  AsDouble :: "symbol \<Rightarrow> real option"
  AsString :: "symbol \<Rightarrow> string option"
  fun_table :: "nat \<Rightarrow> symbol list \<Rightarrow> content option"
  setup_table :: "nat \<Rightarrow> node \<Rightarrow> addr option list \<Rightarrow> 'h \<Rightarrow> 'h"

text \<open>\<^verbatim>\<open>Symbol::As<T>()\<close> at the two native types.\<close>

definition As :: "'h env \<Rightarrow> native_type \<Rightarrow> symbol \<Rightarrow> error + native" where
  "As env T sm =
     (case T of
        TDouble \<Rightarrow> (case AsDouble env sm of None \<Rightarrow> Inl TypeMismatch | Some d \<Rightarrow> Inr (NDouble d))
      | TString \<Rightarrow> (case AsString env sm of None \<Rightarrow> Inl TypeMismatch | Some t \<Rightarrow> Inr (NString t)))"

text \<open>
  A temporary Symbol: nameless, in no scope, with the flag set.
\<close>

definition new_temporary :: "content \<Rightarrow> symbol" where
  "new_temporary c =
     \<lparr>name = [], desc = [], scope = None, is_temporary = True, is_builtin = False,
      content = c\<rparr>"

text \<open>
  Modelled from the spec: \<^verbatim>\<open>EmplodeTools::MakeTempSymbol\<close> is not in the files at hand;
  it wraps the output as a new temporary result, a variable of the value's type.
\<close>

definition MakeTempSymbol :: "native \<Rightarrow> 'h state \<Rightarrow> addr \<times> 'h state" where
  "MakeTempSymbol v s =
     NewPtr (new_temporary (case v of NDouble d \<Rightarrow> DoubleVar d | NString t \<Rightarrow> StringVar t)) s"

text \<open>
  Modelled from the spec: \<^verbatim>\<open>Symbol::CopyValue(other)\<close> is not in the files at hand; it
  overwrites this Symbol's value from another's. The value of a variable is replaced by the
  other Symbol coerced to the variable's type, that of a function by the other function;
  every other field stays. A scope holds no value to overwrite.
\<close>

definition CopyValue :: "'h env \<Rightarrow> symbol \<Rightarrow> symbol \<Rightarrow> error + symbol" where
  "CopyValue env lhs rhs =
     (case content lhs of
        DoubleVar _ \<Rightarrow>
          (case AsDouble env rhs of
             None \<Rightarrow> Inl TypeMismatch
           | Some d \<Rightarrow> Inr (lhs\<lparr>content := DoubleVar d\<rparr>))
      | StringVar _ \<Rightarrow>
          (case AsString env rhs of
             None \<Rightarrow> Inl TypeMismatch
           | Some t \<Rightarrow> Inr (lhs\<lparr>content := StringVar t\<rparr>))
      | Function _ \<Rightarrow>
          (case content rhs of
             Function k \<Rightarrow> Inr (lhs\<lparr>content := Function k\<rparr>)
           | _ \<Rightarrow> Inl TypeMismatch)
      | Scope _ _ _ \<Rightarrow> Inl TypeMismatch)"

text \<open>The Symbols behind a vector of pointers, none of which may be null or released.\<close>

fun deref_all :: "'h state \<Rightarrow> addr option list \<Rightarrow> error + symbol list" where
  "deref_all s [] = Inr []"
| "deref_all s (p # ps) =
     (case deref s p of
        Inl e \<Rightarrow> Inl e
      | Inr sm \<Rightarrow> (case deref_all s ps of Inl e \<Rightarrow> Inl e | Inr sms \<Rightarrow> Inr (sm # sms)))"

text \<open>
  Modelled from the spec: \<^verbatim>\<open>Symbol::Call(args)\<close> is not in the files at hand; it invokes
  the Symbol as a function over the ordered argument Symbols and returns a freshly
  allocated, temporary result, and fails with NotCallable if the Symbol is no function.
\<close>

definition Call :: "'h env \<Rightarrow> addr option \<Rightarrow> addr option list \<Rightarrow> 'h state \<Rightarrow> error + (addr option \<times> 'h state)" where
  "Call env fn args s =
     (case deref s fn of
        Inl e \<Rightarrow> Inl e
      | Inr fsm \<Rightarrow>
          (case content fsm of
             Function k \<Rightarrow>
               (case deref_all s args of
                  Inl e \<Rightarrow> Inl e
                | Inr sms \<Rightarrow>
                    (case fun_table env k sms of
                       None \<Rightarrow> Inl TypeMismatch
                     | Some c \<Rightarrow>
                         (case NewPtr (new_temporary c) s of
                            (r, s1) \<Rightarrow> Inr (Some r, s1))))
           | _ \<Rightarrow> Inl NotCallable))"

text \<open>
  The cleanup loop of \<^verbatim>\<open>ASTNode_Call::Process\<close>:
  \<^verbatim>\<open>for (auto arg : args) if (arg->IsTemporary()) arg.Delete();\<close>
\<close>

fun release_args :: "addr option list \<Rightarrow> 'h state \<Rightarrow> error + 'h state" where
  "release_args [] s = Inr s"
| "release_args (p # ps) s =
     (case release_if_temporary p s of
        Inl e \<Rightarrow> Inl e
      | Inr s1 \<Rightarrow> release_args ps s1)"

text \<open>
  \<^verbatim>\<open>Process\<close>, one group of equations per node class, with the two loops over
  children: the one of Call and Event, which collects the results, and the one of Block,
  which discards them. A node whose \<^verbatim>\<open>emp_assert\<close> on the number of children fails
  stops with \<open>AssertFail\<close>. The result is the returned pointer and the new state.
\<close>

fun Process :: "'h env \<Rightarrow> node \<Rightarrow> 'h state \<Rightarrow> error + (addr option \<times> 'h state)"
and Process_args :: "'h env \<Rightarrow> node list \<Rightarrow> 'h state \<Rightarrow> error + (addr option list \<times> 'h state)"
and Process_statements :: "'h env \<Rightarrow> node list \<Rightarrow> 'h state \<Rightarrow> error + 'h state"
where
  "Process env (ASTNode_Leaf symbol_ptr own_symbol) s = Inr (Some symbol_ptr, s)"
| "Process env (ASTNode_Block scope_ptr children) s =
     (case Process_statements env children s of
        Inl e \<Rightarrow> Inl e
      | Inr s1 \<Rightarrow> Inr (None, s1))"
| "Process env (ASTNode_Math1 nm f [c]) s =
     (case Process env c s of
        Inl e \<Rightarrow> Inl e
      | Inr (input_symbol, s1) \<Rightarrow>
          (case deref s1 input_symbol of
             Inl e \<Rightarrow> Inl e
           | Inr sm \<Rightarrow>
               (case AsDouble env sm of
                  None \<Rightarrow> Inl TypeMismatch
                | Some d \<Rightarrow>
                    (case release_if_temporary input_symbol s1 of
                       Inl e \<Rightarrow> Inl e
                     | Inr s2 \<Rightarrow>
                         (case MakeTempSymbol (NDouble (f d)) s2 of
                            (r, s3) \<Rightarrow> Inr (Some r, s3))))))"
| "Process env (ASTNode_Math1 nm f children) s = Inl AssertFail"
| "Process env (ASTNode_Op2 nm T1 T2 f [c1, c2]) s =
     (case Process env c1 s of
        Inl e \<Rightarrow> Inl e
      | Inr (in1, s1) \<Rightarrow>
          (case Process env c2 s1 of
             Inl e \<Rightarrow> Inl e
           | Inr (in2, s2) \<Rightarrow>
               (case deref s2 in1 of
                  Inl e \<Rightarrow> Inl e
                | Inr sm1 \<Rightarrow>
                    (case As env T1 sm1 of
                       Inl e \<Rightarrow> Inl e
                     | Inr v1 \<Rightarrow>
                         (case deref s2 in2 of
                            Inl e \<Rightarrow> Inl e
                          | Inr sm2 \<Rightarrow>
                              (case As env T2 sm2 of
                                 Inl e \<Rightarrow> Inl e
                               | Inr v2 \<Rightarrow>
                                   (case release_if_temporary in1 s2 of
                                      Inl e \<Rightarrow> Inl e
                                    | Inr s3 \<Rightarrow>
                                        (case release_if_temporary in2 s3 of
                                           Inl e \<Rightarrow> Inl e
                                         | Inr s4 \<Rightarrow>
                                             (case MakeTempSymbol (f v1 v2) s4 of
                                                (r, s5) \<Rightarrow> Inr (Some r, s5))))))))))"
| "Process env (ASTNode_Op2 nm T1 T2 f children) s = Inl AssertFail"
| "Process env (ASTNode_Assign [c1, c2]) s =
     (case Process env c1 s of
        Inl e \<Rightarrow> Inl e
      | Inr (lhs, s1) \<Rightarrow>
          (case Process env c2 s1 of
             Inl e \<Rightarrow> Inl e
           | Inr (rhs, s2) \<Rightarrow>
               (case lhs of
                  None \<Rightarrow> Inl NullDeref
                | Some l \<Rightarrow>
                    (case heap s2 l of
                       None \<Rightarrow> Inl DanglingPtr
                     | Some lsm \<Rightarrow>
                         (case deref s2 rhs of
                            Inl e \<Rightarrow> Inl e
                          | Inr rsm \<Rightarrow>
                              (case CopyValue env lsm rsm of
                                 Inl e \<Rightarrow> Inl e
                               | Inr lsm' \<Rightarrow>
                                   (case release_if_temporary rhs
                                           (s2\<lparr>heap := (heap s2)(l \<mapsto> lsm')\<rparr>) of
                                      Inl e \<Rightarrow> Inl e
                                    | Inr s3 \<Rightarrow> Inr (lhs, s3))))))))"
| "Process env (ASTNode_Assign children) s = Inl AssertFail"
| "Process env (ASTNode_Call (c # rest)) s =
     (case Process env c s of
        Inl e \<Rightarrow> Inl e
      | Inr (fn, s1) \<Rightarrow>
          (case Process_args env rest s1 of
             Inl e \<Rightarrow> Inl e
           | Inr (args, s2) \<Rightarrow>
               (case Call env fn args s2 of
                  Inl e \<Rightarrow> Inl e
                | Inr (result, s3) \<Rightarrow>
                    (case release_args args s3 of
                       Inl e \<Rightarrow> Inl e
                     | Inr s4 \<Rightarrow> Inr (result, s4)))))"
| "Process env (ASTNode_Call []) s = Inl AssertFail"
| "Process env (ASTNode_Event nm k (action # rest)) s =
     (case Process_args env rest s of
        Inl e \<Rightarrow> Inl e
      | Inr (arg_entries, s1) \<Rightarrow>
          Inr (None, s1\<lparr>host := setup_table env k action arg_entries (host s1)\<rparr>))"
| "Process env (ASTNode_Event nm k []) s = Inl AssertFail"
| "Process_args env [] s = Inr ([], s)"
| "Process_args env (c # rest) s =
     (case Process env c s of
        Inl e \<Rightarrow> Inl e
      | Inr (p, s1) \<Rightarrow>
          (case Process_args env rest s1 of
             Inl e \<Rightarrow> Inl e
           | Inr (ps, s2) \<Rightarrow> Inr (p # ps, s2)))"
| "Process_statements env [] s = Inr s"
| "Process_statements env (node # rest) s =
     (case Process env node s of
        Inl e \<Rightarrow> Inl e
      | Inr (out, s1) \<Rightarrow>
          (case (case out of None \<Rightarrow> Inr s1 | Some a \<Rightarrow> release_if_temporary out s1) of
             Inl e \<Rightarrow> Inl e
           | Inr s2 \<Rightarrow> Process_statements env rest s2))"

text \<open>
  The constructor of a leaf: \<^verbatim>\<open>own_symbol\<close> is the Symbol's temporariness at this
  moment, and the flag is then cleared (\<^verbatim>\<open>SetTemporary(false)\<close>).
\<close>

definition new_ASTNode_Leaf :: "addr \<Rightarrow> 'h state \<Rightarrow> error + (node \<times> 'h state)" where
  "new_ASTNode_Leaf p s =
     (case heap s p of
        None \<Rightarrow> Inl DanglingPtr
      | Some sm \<Rightarrow>
          Inr (ASTNode_Leaf p (is_temporary sm),
               s\<lparr>heap := (heap s)(p \<mapsto> sm\<lparr>is_temporary := False\<rparr>)\<rparr>))"

text \<open>
  The destructors: \<^verbatim>\<open>~ASTNode_Leaf\<close> deletes the Symbol if the leaf owns it,
  \<^verbatim>\<open>~ASTNode_Internal\<close> deletes every child.
\<close>

fun Delete_node :: "node \<Rightarrow> 'h state \<Rightarrow> error + 'h state"
and Delete_children :: "node list \<Rightarrow> 'h state \<Rightarrow> error + 'h state"
where
  "Delete_node (ASTNode_Leaf symbol_ptr own_symbol) s =
     (if own_symbol then Delete symbol_ptr s else Inr s)"
| "Delete_node (ASTNode_Block scope_ptr children) s = Delete_children children s"
| "Delete_node (ASTNode_Math1 nm f children) s = Delete_children children s"
| "Delete_node (ASTNode_Op2 nm T1 T2 f children) s = Delete_children children s"
| "Delete_node (ASTNode_Assign children) s = Delete_children children s"
| "Delete_node (ASTNode_Call children) s = Delete_children children s"
| "Delete_node (ASTNode_Event nm k children) s = Delete_children children s"
| "Delete_children [] s = Inr s"
| "Delete_children (child # rest) s =
     (case Delete_node child s of
        Inl e \<Rightarrow> Inl e
      | Inr s1 \<Rightarrow> Delete_children rest s1)"

text \<open>The constructors of the other nodes append the children in the order given.\<close>

definition new_ASTNode_Assign :: "node \<Rightarrow> node \<Rightarrow> node" where
  "new_ASTNode_Assign lhs rhs = ASTNode_Assign [lhs, rhs]"

definition new_ASTNode_Call :: "node \<Rightarrow> node list \<Rightarrow> node" where
  "new_ASTNode_Call fn args = ASTNode_Call (fn # args)"

definition new_ASTNode_Event :: "string \<Rightarrow> node \<Rightarrow> node list \<Rightarrow> nat \<Rightarrow> node" where
  "new_ASTNode_Event event_name action args in_fun = ASTNode_Event event_name in_fun (action # args)"

section \<open>Reference notions for the properties\<close>

text \<open>
  A chain of scopes in the store: \<open>a\<close> is a scope whose parent link leads through
  \<open>rest\<close>, the last of which is a root (it has no parent).
\<close>

fun scope_chain :: "'h state \<Rightarrow> addr \<Rightarrow> addr list \<Rightarrow> bool" where
  "scope_chain s a [] =
     (case heap s a of None \<Rightarrow> False | Some sc \<Rightarrow> IsScope sc \<and> scope sc = None)"
| "scope_chain s a (b # rest) =
     (case heap s a of
        None \<Rightarrow> False
      | Some sc \<Rightarrow> IsScope sc \<and> scope sc = Some b \<and> scope_chain s b rest)"

text \<open>
  Name resolution as the specification words it: the entry of the first scope of the list
  that declares the name, and the not-found sentinel when none does.
\<close>

fun first_declared :: "'h state \<Rightarrow> addr list \<Rightarrow> string \<Rightarrow> addr option" where
  "first_declared s [] nm = None"
| "first_declared s (a # rest) nm =
     (case heap s a of
        None \<Rightarrow> None
      | Some sc \<Rightarrow>
          (case map_of (symbol_table sc) nm of
             Some p \<Rightarrow> Some p
           | None \<Rightarrow> first_declared s rest nm))"

text \<open>
  A well-formed store: every live object lies below the allocation counter, and no
  temporary is a scope (temporaries are results of operators and calls). A well-formed
  environment: no function closure returns a scope.
\<close>

definition wf_state :: "'h state \<Rightarrow> bool" where
  "wf_state s \<longleftrightarrow>
     (\<forall>a sm. heap s a = Some sm \<longrightarrow> a < next_addr s \<and> (is_temporary sm \<longrightarrow> \<not> IsScope sm))"

definition wf_env :: "'h env \<Rightarrow> bool" where
  "wf_env env \<longleftrightarrow>
     (\<forall>k sms c. fun_table env k sms = Some c \<longrightarrow>
        (case c of Scope tbl obj owned \<Rightarrow> False | _ \<Rightarrow> True))"

text \<open>
  A persistent Symbol is live and not temporary (a named entity, or a literal owned by its
  leaf); a temporary one is live with the flag set.
\<close>

definition persistent :: "'h state \<Rightarrow> addr \<Rightarrow> bool" where
  "persistent s a = (case heap s a of None \<Rightarrow> False | Some sm \<Rightarrow> \<not> is_temporary sm)"

definition temporary_at :: "'h state \<Rightarrow> addr \<Rightarrow> bool" where
  "temporary_at s a = (case heap s a of None \<Rightarrow> False | Some sm \<Rightarrow> is_temporary sm)"

text \<open>
  The Symbols the leaves of a tree point to. A tree built by the leaf constructor has all
  of them persistent, since the constructor clears the flag.
\<close>

fun leaves :: "node \<Rightarrow> addr list" where
  "leaves (ASTNode_Leaf p own) = [p]"
| "leaves (ASTNode_Block sc cs) = concat (map leaves cs)"
| "leaves (ASTNode_Math1 nm f cs) = concat (map leaves cs)"
| "leaves (ASTNode_Op2 nm T1 T2 f cs) = concat (map leaves cs)"
| "leaves (ASTNode_Assign cs) = concat (map leaves cs)"
| "leaves (ASTNode_Call cs) = concat (map leaves cs)"
| "leaves (ASTNode_Event nm k cs) = concat (map leaves cs)"

definition leaves_persistent :: "'h state \<Rightarrow> node \<Rightarrow> bool" where
  "leaves_persistent s t \<longleftrightarrow> (\<forall>a \<in> set (leaves t). persistent s a)"

text \<open>
  What evaluation may do to the store between a state \<open>s0\<close> and a later state \<open>s\<close>:
  allocate, touch the value of persistent Symbols, and create and release temporaries of
  its own. It keeps every persistent Symbol persistent, leaves the temporaries that
  existed at \<open>s0\<close> exactly as they were, and never revives a released address.
\<close>

definition frame :: "'h state \<Rightarrow> 'h state \<Rightarrow> bool" where
  "frame s0 s \<longleftrightarrow>
     wf_state s0 \<and> wf_state s \<and> next_addr s0 \<le> next_addr s \<and> objects s = objects s0 \<and>
     (\<forall>a. persistent s0 a \<longrightarrow> persistent s a) \<and>
     (\<forall>a sm. heap s0 a = Some sm \<and> is_temporary sm \<longrightarrow> heap s a = Some sm) \<and>
     (\<forall>a. a < next_addr s0 \<and> heap s0 a = None \<longrightarrow> heap s a = None)"

text \<open>
  A result of evaluation started at \<open>s0\<close>: no Symbol, a persistent Symbol, or a
  temporary allocated since \<open>s0\<close>. The weaker \<open>releasable\<close> is what the release idiom
  needs of the pointer it is applied to.
\<close>

definition result_ok :: "'h state \<Rightarrow> 'h state \<Rightarrow> addr option \<Rightarrow> bool" where
  "result_ok s0 s r =
     (case r of
        None \<Rightarrow> True
      | Some p \<Rightarrow> persistent s p \<or> (next_addr s0 \<le> p \<and> temporary_at s p))"

definition releasable :: "'h state \<Rightarrow> 'h state \<Rightarrow> addr option \<Rightarrow> bool" where
  "releasable s0 s r =
     (case r of None \<Rightarrow> True | Some p \<Rightarrow> persistent s p \<or> next_addr s0 \<le> p)"

text \<open>
  The statement about \<open>Process\<close> and its two loops that is proved by induction along
  their recursion: a run from a well-formed store stays within the frame and gives results
  of the form above.
\<close>

definition Process_ok :: "'h env \<Rightarrow> node \<Rightarrow> 'h state \<Rightarrow> bool" where
  "Process_ok env t s \<longleftrightarrow>
     (wf_env env \<longrightarrow> wf_state s \<longrightarrow> leaves_persistent s t \<longrightarrow>
       (\<forall>r s'. Process env t s = Inr (r, s') \<longrightarrow> frame s s' \<and> result_ok s s' r))"

definition Process_args_ok :: "'h env \<Rightarrow> node list \<Rightarrow> 'h state \<Rightarrow> bool" where
  "Process_args_ok env ts s \<longleftrightarrow>
     (wf_env env \<longrightarrow> wf_state s \<longrightarrow> (\<forall>t\<in>set ts. leaves_persistent s t) \<longrightarrow>
       (\<forall>ps s'. Process_args env ts s = Inr (ps, s') \<longrightarrow>
          frame s s' \<and> (\<forall>r\<in>set ps. result_ok s s' r)))"

definition Process_statements_ok :: "'h env \<Rightarrow> node list \<Rightarrow> 'h state \<Rightarrow> bool" where
  "Process_statements_ok env ts s \<longleftrightarrow>
     (wf_env env \<longrightarrow> wf_state s \<longrightarrow> (\<forall>t\<in>set ts. leaves_persistent s t) \<longrightarrow>
       (\<forall>s'. Process_statements env ts s = Inr s' \<longrightarrow> frame s s'))"

text \<open>
  The store after the release idiom has been applied to a live Symbol: the Symbol is gone
  if it was temporary, and nothing has changed otherwise.
\<close>

definition drop_temporary :: "addr \<Rightarrow> 'h state \<Rightarrow> 'h state" where
  "drop_temporary p s = (if temporary_at s p then s\<lparr>heap := (heap s)(p := None)\<rparr> else s)"

text \<open>
  Trees in which every result is consumed by a node of the tree: there is no Event node,
  which passes the results of its arguments on to the host's closure, and the callee of
  every Call is a leaf.
\<close>

fun no_handoff :: "node \<Rightarrow> bool" where
  "no_handoff (ASTNode_Leaf p own) = True"
| "no_handoff (ASTNode_Block sc cs) = (\<forall>c\<in>set cs. no_handoff c)"
| "no_handoff (ASTNode_Math1 nm f cs) = (\<forall>c\<in>set cs. no_handoff c)"
| "no_handoff (ASTNode_Op2 nm T1 T2 f cs) = (\<forall>c\<in>set cs. no_handoff c)"
| "no_handoff (ASTNode_Assign cs) = (\<forall>c\<in>set cs. no_handoff c)"
| "no_handoff (ASTNode_Call cs) =
     (case cs of
        [] \<Rightarrow> True
      | c # rest \<Rightarrow>
          (case c of ASTNode_Leaf p own \<Rightarrow> True | _ \<Rightarrow> False) \<and> (\<forall>a\<in>set rest. no_handoff a))"
| "no_handoff (ASTNode_Event nm k cs) = False"

text \<open>
  The temporary that a result pointer stands for, if any, and the balance of allocation
  and release: after the evaluation the live objects are those from before and the
  temporary that is returned.
\<close>

definition returned_temporary :: "'h state \<Rightarrow> addr option \<Rightarrow> addr set" where
  "returned_temporary s r =
     (case r of None \<Rightarrow> {} | Some p \<Rightarrow> if temporary_at s p then {p} else {})"

definition Process_balanced :: "'h env \<Rightarrow> node \<Rightarrow> 'h state \<Rightarrow> bool" where
  "Process_balanced env t s \<longleftrightarrow>
     (wf_env env \<longrightarrow> wf_state s \<longrightarrow> leaves_persistent s t \<longrightarrow> no_handoff t \<longrightarrow>
       (\<forall>r s'. Process env t s = Inr (r, s') \<longrightarrow>
          dom (heap s') = dom (heap s) \<union> returned_temporary s' r))"

definition Process_args_balanced :: "'h env \<Rightarrow> node list \<Rightarrow> 'h state \<Rightarrow> bool" where
  "Process_args_balanced env ts s \<longleftrightarrow>
     (wf_env env \<longrightarrow> wf_state s \<longrightarrow> (\<forall>t\<in>set ts. leaves_persistent s t) \<longrightarrow>
      (\<forall>t\<in>set ts. no_handoff t) \<longrightarrow>
       (\<forall>ps s'. Process_args env ts s = Inr (ps, s') \<longrightarrow>
          dom (heap s') = dom (heap s) \<union> (\<Union>r\<in>set ps. returned_temporary s' r)))"

definition Process_statements_balanced :: "'h env \<Rightarrow> node list \<Rightarrow> 'h state \<Rightarrow> bool" where
  "Process_statements_balanced env ts s \<longleftrightarrow>
     (wf_env env \<longrightarrow> wf_state s \<longrightarrow> (\<forall>t\<in>set ts. leaves_persistent s t) \<longrightarrow>
      (\<forall>t\<in>set ts. no_handoff t) \<longrightarrow>
       (\<forall>s'. Process_statements env ts s = Inr s' \<longrightarrow> dom (heap s') = dom (heap s)))"

text \<open>
  The children \<open>cs\<close> are evaluated one after the other, from the left: \<open>Process\<close> of the
  first child runs in the store \<open>s\<close>, \<open>Process\<close> of each later child in the store that its
  left neighbour has left, every one of them returns, \<open>ps\<close> lists the results in the order
  of the children, and \<open>s'\<close> is the store after the last child.
\<close>

fun evaluated_in_order ::
  "'h env \<Rightarrow> node list \<Rightarrow> 'h state \<Rightarrow> addr option list \<Rightarrow> 'h state \<Rightarrow> bool" where
  "evaluated_in_order env [] s ps s' = (ps = [] \<and> s' = s)"
| "evaluated_in_order env (c # cs) s ps s' =
     (case ps of
        [] \<Rightarrow> False
      | p # qs \<Rightarrow>
          (case Process env c s of
             Inl e \<Rightarrow> False
           | Inr (p', s1) \<Rightarrow> p' = p \<and> evaluated_in_order env cs s1 qs s'))"

text \<open>
  The two errors that report a violation of the ownership discipline: a read or a release
  of a Symbol that has been released already, and a release that does not come to an end.
\<close>

definition ownership_error :: "error \<Rightarrow> bool" where
  "ownership_error e \<longleftrightarrow> e = DanglingPtr \<or> e = OutOfFuel"

text \<open>The temporary Symbols among the results in a list, in the order of the list.\<close>

fun temporaries :: "'h state \<Rightarrow> addr option list \<Rightarrow> addr list" where
  "temporaries s [] = []"
| "temporaries s (None # ps) = temporaries s ps"
| "temporaries s (Some p # ps) =
     (if temporary_at s p then p # temporaries s ps else temporaries s ps)"

text \<open>
  Evaluation from a well-formed store, of a tree whose leaves hold persistent Symbols,
  with host functions that return no scope, does not stop with an ownership error.
\<close>

definition Process_safe :: "'h env \<Rightarrow> node \<Rightarrow> 'h state \<Rightarrow> bool" where
  "Process_safe env t s \<longleftrightarrow>
     (wf_env env \<longrightarrow> wf_state s \<longrightarrow> leaves_persistent s t \<longrightarrow>
       (\<forall>e. Process env t s = Inl e \<longrightarrow> \<not> ownership_error e))"

definition Process_args_safe :: "'h env \<Rightarrow> node list \<Rightarrow> 'h state \<Rightarrow> bool" where
  "Process_args_safe env ts s \<longleftrightarrow>
     (wf_env env \<longrightarrow> wf_state s \<longrightarrow> (\<forall>t\<in>set ts. leaves_persistent s t) \<longrightarrow>
       (\<forall>e. Process_args env ts s = Inl e \<longrightarrow> \<not> ownership_error e))"

definition Process_statements_safe :: "'h env \<Rightarrow> node list \<Rightarrow> 'h state \<Rightarrow> bool" where
  "Process_statements_safe env ts s \<longleftrightarrow>
     (wf_env env \<longrightarrow> wf_state s \<longrightarrow> (\<forall>t\<in>set ts. leaves_persistent s t) \<longrightarrow>
       (\<forall>e. Process_statements env ts s = Inl e \<longrightarrow> \<not> ownership_error e))"

text \<open>The store after the release idiom has been applied to every result in a list.\<close>

fun drop_temporaries :: "addr option list \<Rightarrow> 'h state \<Rightarrow> 'h state" where
  "drop_temporaries [] s = s"
| "drop_temporaries (None # ps) s = drop_temporaries ps s"
| "drop_temporaries (Some p # ps) s = drop_temporaries ps (drop_temporary p s)"

section \<open>Concrete environments and stores\<close>

text \<open>
  An environment with the strict coercions (a variable is read at its own type only),
  three function closures (closure 0 takes no argument and returns the number 42; closure
  1 takes no argument and returns the function of closure 2; closure 2 takes one number
  and returns it), and setup closures that append their call to a log kept as the host's
  state.
\<close>

type_synonym event_log = "(nat \<times> node \<times> addr option list) list"

definition strict_env :: "event_log env" where
  "strict_env =
     \<lparr>AsDouble = (\<lambda>sm. case content sm of DoubleVar d \<Rightarrow> Some d | _ \<Rightarrow> None),
      AsString = (\<lambda>sm. case content sm of StringVar t \<Rightarrow> Some t | _ \<Rightarrow> None),
      fun_table = (\<lambda>k sms.
         if k = 0 \<and> sms = [] then Some (DoubleVar 42)
         else if k = 1 \<and> sms = [] then Some (Function 2)
         else if k = 2 then
           (case sms of
              [x] \<Rightarrow> (case content x of DoubleVar d \<Rightarrow> Some (DoubleVar d) | _ \<Rightarrow> None)
            | _ \<Rightarrow> None)
         else None),
      setup_table = (\<lambda>k action args log. log @ [(k, action, args)])\<rparr>"

text \<open>
  Three nested scopes, S3 the root at address 0, S2 inside it at 1, S1 inside S2 at 2, and
  a numeric variable X of value 5 declared in S3 only, at address 3.
\<close>

definition nested_state :: "event_log state" where
  "nested_state =
     \<lparr>heap = [0 \<mapsto> Symbol_Scope [] None None False ''S3''
                       \<lparr>content := Scope [(''S2'', 1), (''X'', 3)] None False\<rparr>,
              1 \<mapsto> Symbol_Scope [] (Some 0) None False ''S2''
                       \<lparr>content := Scope [(''S1'', 2)] None False\<rparr>,
              2 \<mapsto> Symbol_Scope [] (Some 1) None False ''S1'',
              3 \<mapsto> Symbol_DoubleVar 5 [] (Some 0) ''X''],
      next_addr = 4, objects = {}, host = []\<rparr>"

text \<open>
  A scope S at address 0 that wraps the host object 7 without owning it and declares the
  numeric variable X, at address 1.
\<close>

definition wrapped_state :: "event_log state" where
  "wrapped_state =
     \<lparr>heap = [0 \<mapsto> Symbol_Scope [] None (Some 7) False ''S''
                       \<lparr>content := Scope [(''X'', 1)] (Some 7) False\<rparr>,
              1 \<mapsto> Symbol_DoubleVar 5 [] (Some 0) ''X''],
      next_addr = 2, objects = {7}, host = []\<rparr>"

text \<open>
  The store behind \<^verbatim>\<open>@OnUpdate(10) DoThing();\<close>: the root scope with the function
  DoThing (closure 0) at address 1, and the literal 10 at address 2, owned by its leaf.
\<close>

definition event_state :: "event_log state" where
  "event_state =
     \<lparr>heap = [0 \<mapsto> Symbol_Scope [] None None False ''root''
                       \<lparr>content := Scope [(''DoThing'', 1)] None False\<rparr>,
              1 \<mapsto> Symbol_Function 0 [] (Some 0) ''DoThing'',
              2 \<mapsto> Symbol_DoubleVar 10 [] None []],
      next_addr = 3, objects = {}, host = []\<rparr>"

text \<open>
  The closure bound to \<^verbatim>\<open>+\<close>: addition on two numbers, concatenation on two strings.
\<close>

definition add_closure :: "native \<Rightarrow> native \<Rightarrow> native" where
  "add_closure a b =
     (case (a, b) of
        (NDouble x, NDouble y) \<Rightarrow> NDouble (x + y)
      | (NString x, NString y) \<Rightarrow> NString (x @ y)
      | _ \<Rightarrow> a)"

text \<open>
  The literals 3 and 4, and the literals "a" and "b", each owned by its leaf.
\<close>

definition sum_state :: "event_log state" where
  "sum_state =
     \<lparr>heap = [0 \<mapsto> Symbol_DoubleVar 3 [] None [], 1 \<mapsto> Symbol_DoubleVar 4 [] None []],
      next_addr = 2, objects = {}, host = []\<rparr>"

definition text_state :: "event_log state" where
  "text_state =
     \<lparr>heap = [0 \<mapsto> Symbol_StringVar ''a'' [] None [], 1 \<mapsto> Symbol_StringVar ''b'' [] None []],
      next_addr = 2, objects = {}, host = []\<rparr>"

text \<open>
  The root scope with the numeric variable X of value 5 at address 1, and the literal 9.
\<close>

definition assign_state :: "event_log state" where
  "assign_state =
     \<lparr>heap = [0 \<mapsto> Symbol_Scope [] None None False ''root''
                       \<lparr>content := Scope [(''X'', 1)] None False\<rparr>,
              1 \<mapsto> Symbol_DoubleVar 5 [] (Some 0) ''X'',
              2 \<mapsto> Symbol_DoubleVar 9 [] None []],
      next_addr = 3, objects = {}, host = []\<rparr>"

text \<open>
  The root scope with the function MakeFn (closure 1, which returns a function) at address
  1, and the literal 3.
\<close>

definition callee_state :: "event_log state" where
  "callee_state =
     \<lparr>heap = [0 \<mapsto> Symbol_Scope [] None None False ''root''
                       \<lparr>content := Scope [(''MakeFn'', 1)] None False\<rparr>,
              1 \<mapsto> Symbol_Function 1 [] (Some 0) ''MakeFn'',
              2 \<mapsto> Symbol_DoubleVar 3 [] None []],
      next_addr = 3, objects = {}, host = []\<rparr>"

text \<open>
  The literal 2 as the parser creates it, a temporary, and the same store once a leaf has
  been built over it; the expression \<^verbatim>\<open>2 + 2\<close> over that leaf.
\<close>

definition literal_state :: "event_log state" where
  "literal_state =
     \<lparr>heap = [0 \<mapsto> new_temporary (DoubleVar 2)],
      next_addr = 1, objects = {}, host = []\<rparr>"

definition owned_state :: "event_log state" where
  "owned_state =
     \<lparr>heap = [0 \<mapsto> new_temporary (DoubleVar 2) \<lparr>is_temporary := False\<rparr>],
      next_addr = 1, objects = {}, host = []\<rparr>"

definition two_plus_two :: node where
  "two_plus_two =
     ASTNode_Op2 ''+'' TDouble TDouble add_closure [ASTNode_Leaf 0 True, ASTNode_Leaf 0 True]"

text \<open>
  The stages of the call \<^verbatim>\<open>MakeFn()(-3)\<close> from \<open>callee_state\<close>: after the callee
  child (the function returned by MakeFn is the temporary at address 3), after the
  argument (the temporary at 4), after the call (its result at 5), and after the cleanup.
\<close>

definition callee_state1 :: "event_log state" where
  "callee_state1 =
     callee_state\<lparr>heap := (heap callee_state)(3 \<mapsto> new_temporary (Function 2)),
                  next_addr := 4\<rparr>"

definition callee_state2 :: "event_log state" where
  "callee_state2 =
     callee_state1\<lparr>heap := (heap callee_state1)(4 \<mapsto> new_temporary (DoubleVar (- 3))),
                   next_addr := 5\<rparr>"

definition callee_state3 :: "event_log state" where
  "callee_state3 =
     callee_state2\<lparr>heap := (heap callee_state2)(5 \<mapsto> new_temporary (DoubleVar (- 3))),
                   next_addr := 6\<rparr>"

definition callee_state4 :: "event_log state" where
  "callee_state4 = callee_state3\<lparr>heap := (heap callee_state3)(4 := None)\<rparr>"

text \<open>
  The root scope with the function Id (closure 2), the literals 3 and 4, and a temporary
  at address 4 that some other owner holds; the call \<^verbatim>\<open>Id(-(3 + 4))\<close>, its subtrees, and
  the stores along its evaluation: after the sum, after the negation, after the function
  has run, and after the cleanup of the call. The event \<^verbatim>\<open>@OnUpdate(10 + 10) DoThing();\<close>
  over \<open>event_state\<close>; the trees \<^verbatim>\<open>10 + 10\<close> and \<^verbatim>\<open>-10\<close> over \<open>event_state\<close> and the stores
  after the first and after both.
\<close>

definition call_state :: "event_log state" where
  "call_state =
     \<lparr>heap = [0 \<mapsto> Symbol_Scope [] None None False ''root''
                       \<lparr>content := Scope [(''Id'', 1)] None False\<rparr>,
              1 \<mapsto> Symbol_Function 2 [] (Some 0) ''Id'',
              2 \<mapsto> Symbol_DoubleVar 3 [] None [],
              3 \<mapsto> Symbol_DoubleVar 4 [] None [],
              4 \<mapsto> new_temporary (StringVar ''pending'')],
      next_addr = 5, objects = {}, host = []\<rparr>"

definition three_plus_four :: node where
  "three_plus_four =
     ASTNode_Op2 ''+'' TDouble TDouble add_closure [ASTNode_Leaf 2 True, ASTNode_Leaf 3 True]"

definition minus_sum :: node where
  "minus_sum = ASTNode_Math1 ''-'' uminus [three_plus_four]"

definition id_of_minus_sum :: node where
  "id_of_minus_sum = ASTNode_Call [ASTNode_Leaf 1 False, minus_sum]"

definition call_state1 :: "event_log state" where
  "call_state1 =
     call_state\<lparr>heap := (heap call_state)(5 \<mapsto> new_temporary (DoubleVar 7)), next_addr := 6\<rparr>"

definition call_state2 :: "event_log state" where
  "call_state2 =
     call_state\<lparr>heap := (heap call_state)(6 \<mapsto> new_temporary (DoubleVar (- 7))),
                next_addr := 7\<rparr>"

definition call_state3 :: "event_log state" where
  "call_state3 =
     call_state2\<lparr>heap := (heap call_state2)(7 \<mapsto> new_temporary (DoubleVar (- 7))),
                 next_addr := 8\<rparr>"

definition call_state_after :: "event_log state" where
  "call_state_after =
     call_state\<lparr>heap := (heap call_state)(7 \<mapsto> new_temporary (DoubleVar (- 7))),
                next_addr := 8\<rparr>"

definition event_of_sum :: node where
  "event_of_sum =
     ASTNode_Event ''OnUpdate'' 0
       [ASTNode_Call [ASTNode_Leaf 1 False],
        ASTNode_Op2 ''+'' TDouble TDouble add_closure [ASTNode_Leaf 2 True, ASTNode_Leaf 2 True]]"

definition ten_plus_ten :: node where
  "ten_plus_ten =
     ASTNode_Op2 ''+'' TDouble TDouble add_closure [ASTNode_Leaf 2 True, ASTNode_Leaf 2 True]"

definition minus_ten :: node where
  "minus_ten = ASTNode_Math1 ''-'' uminus [ASTNode_Leaf 2 True]"

definition event_state1 :: "event_log state" where
  "event_state1 =
     event_state\<lparr>heap := (heap event_state)(3 \<mapsto> new_temporary (DoubleVar 20)),
                 next_addr := 4\<rparr>"

definition event_state2 :: "event_log state" where
  "event_state2 =
     event_state1\<lparr>heap := (heap event_state1)(4 \<mapsto> new_temporary (DoubleVar (- 10))),
                  next_addr := 5\<rparr>"

section \<open>Basic facts\<close>

lemma Delete_variable:
  "heap s p = Some sm \<Longrightarrow> \<not> IsScope sm \<Longrightarrow>
   Delete p s = Inr (s\<lparr>heap := (heap s)(p := None)\<rparr>)"
  by (cases "content sm") (simp_all add: Delete_def IsScope_def)

lemma LookupSymbol_chain:
  "scope_chain s a rest \<Longrightarrow> length rest < n \<Longrightarrow>
   LookupSymbol n s a nm True = Inr (first_declared s (a # rest) nm)"
proof (induction rest arbitrary: a n)
  case Nil
  then obtain m where "n = Suc m" by (cases n) auto
  with Nil show ?case
    by (auto simp: IsScope_def split: option.splits content.splits)
next
  case (Cons b rest)
  then obtain m where n: "n = Suc m" by (cases n) auto
  from Cons.prems obtain sc where sc: "heap s a = Some sc" "IsScope sc" "scope sc = Some b"
    "scope_chain s b rest"
    by (auto split: option.splits)
  have "LookupSymbol m s b nm True = Inr (first_declared s (b # rest) nm)"
    using Cons.IH [OF sc(4), of m] Cons.prems(2) n by simp
  with sc n show ?case
    by (auto simp: IsScope_def split: option.splits content.splits)
qed

lemma LookupSymbol_local:
  "scope_chain s a rest \<Longrightarrow>
   LookupSymbol (Suc n) s a nm False = Inr (first_declared s [a] nm)"
  by (cases rest) (auto simp: IsScope_def split: option.splits content.splits)

lemma Clone_scope:
  "heap s this = Some sm \<Longrightarrow> IsScope sm \<Longrightarrow>
   Clone (Suc n) this s =
     Inr (next_addr s,
          s\<lparr>heap := (heap s)(next_addr s \<mapsto> sm\<lparr>content := Scope [] None False\<rparr>),
            next_addr := Suc (next_addr s)\<rparr>)"
  by (cases "content sm") (simp_all add: NewPtr_def IsScope_def Symbol_copy_def)

lemma Process_args_length:
  "Process_args env cs s = Inr (ps, s') \<Longrightarrow> length ps = length cs"
  by (induction cs arbitrary: s ps) (auto split: sum.splits prod.splits)

lemma Process_args_append:
  "Process_args env xs s = Inr (ps, s1) \<Longrightarrow> Process_args env ys s1 = Inr (qs, s2) \<Longrightarrow>
   Process_args env (xs @ ys) s = Inr (ps @ qs, s2)"
  by (induction xs arbitrary: s ps) (auto split: sum.splits prod.splits)

text \<open>The loop over the argument children is the evaluation of the children in order.\<close>

lemma Process_args_in_order1:
  "Process_args env cs s = Inr (ps, s') \<Longrightarrow> evaluated_in_order env cs s ps s'"
  by (induction cs arbitrary: s ps) (auto split: sum.splits prod.splits list.splits)

lemma Process_args_in_order2:
  "evaluated_in_order env cs s ps s' \<Longrightarrow> Process_args env cs s = Inr (ps, s')"
  by (induction cs arbitrary: s ps) (auto split: sum.splits prod.splits list.splits)

lemma Process_args_in_order:
  "Process_args env cs s = Inr (ps, s') \<longleftrightarrow> evaluated_in_order env cs s ps s'"
  using Process_args_in_order1 Process_args_in_order2 by blast

section \<open>The ownership discipline of evaluation\<close>

text \<open>
  Evaluation of any tree whose leaves point to persistent Symbols, from a well-formed
  store, stays within the frame above and returns a result of the form above. The proof
  follows the recursion of \<open>Process\<close>; each node kind composes the steps it is made of:
  allocation of a temporary, the release idiom, the overwrite of Assign, the call.
\<close>

lemma wf_state_fresh: "wf_state s \<Longrightarrow> next_addr s \<le> a \<Longrightarrow> heap s a = None"
  unfolding wf_state_def by (cases "heap s a") (auto simp: not_less [symmetric])

lemma frame_refl: "wf_state s \<Longrightarrow> frame s s"
  by (simp add: frame_def)

lemma frame_trans: "frame s0 s1 \<Longrightarrow> frame s1 s2 \<Longrightarrow> frame s0 s2"
  unfolding frame_def
  apply (intro conjI)
  apply simp
  apply simp
  apply simp
  apply simp
  apply blast
  apply blast
  apply (metis order.strict_trans2)
  done

lemma result_ok_base: "result_ok s1 s2 r \<Longrightarrow> next_addr s0 \<le> next_addr s1 \<Longrightarrow> result_ok s0 s2 r"
  by (auto simp: result_ok_def split: option.splits)

lemma result_ok_later: "result_ok s0 s1 r \<Longrightarrow> frame s1 s2 \<Longrightarrow> result_ok s0 s2 r"
  by (auto simp: result_ok_def frame_def temporary_at_def split: option.splits)

lemma leaves_persistent_frame: "leaves_persistent s t \<Longrightarrow> frame s s' \<Longrightarrow> leaves_persistent s' t"
  by (simp add: leaves_persistent_def frame_def)

lemma frame_NewPtr:
  assumes "wf_state s" and "is_temporary sm \<longrightarrow> \<not> IsScope sm" and "NewPtr sm s = (r, s')"
  shows "frame s s'"
  using assms
  using wf_state_fresh [OF assms(1), of "next_addr s"]
  by (auto simp: frame_def NewPtr_def wf_state_def persistent_def less_Suc_eq split: if_splits)

lemma result_ok_NewPtr:
  assumes "wf_state s" and "is_temporary sm" and "NewPtr sm s = (r, s')"
  shows "result_ok s s' (Some r)"
  using assms by (auto simp: result_ok_def NewPtr_def temporary_at_def)

lemma result_ok_releasable: "result_ok s0 s r \<Longrightarrow> releasable s0 s r"
  by (auto simp: result_ok_def releasable_def split: option.splits)

lemma Delete_temporary:
  "wf_state s \<Longrightarrow> heap s p = Some sm \<Longrightarrow> is_temporary sm \<Longrightarrow>
   Delete p s = Inr (s\<lparr>heap := (heap s)(p := None)\<rparr>)"
  by (rule Delete_variable) (auto simp: wf_state_def)

lemma release_if_temporary_cases:
  assumes "wf_state s" and "release_if_temporary r s = Inr s'"
  obtains p sm where "r = Some p" and "heap s p = Some sm" and "\<not> is_temporary sm" and "s' = s"
  | p sm where "r = Some p" and "heap s p = Some sm" and "is_temporary sm"
      and "s' = s\<lparr>heap := (heap s)(p := None)\<rparr>"
proof -
  from assms(2) obtain p sm where r: "r = Some p" and h: "heap s p = Some sm"
    by (auto simp: release_if_temporary_def split: option.splits)
  show thesis
  proof (cases "is_temporary sm")
    case True
    with assms r h have "s' = s\<lparr>heap := (heap s)(p := None)\<rparr>"
      using Delete_temporary [OF assms(1) h True] by (simp add: release_if_temporary_def)
    with r h True that(2) show thesis by blast
  next
    case False
    with assms r h have "s' = s" by (simp add: release_if_temporary_def)
    with r h False that(1) show thesis by blast
  qed
qed

lemma frame_remove:
  assumes "frame s0 s" and "heap s p = Some sm" and "is_temporary sm" and "next_addr s0 \<le> p"
  shows "frame s0 (s\<lparr>heap := (heap s)(p := None)\<rparr>)"
proof -
  have "heap s0 p = None" using assms(1,4) by (simp add: frame_def wf_state_fresh)
  moreover have "\<not> persistent s p" using assms(2,3) by (simp add: persistent_def)
  ultimately show ?thesis
    using assms(1) unfolding frame_def wf_state_def persistent_def
    by (auto split: option.splits)
qed

lemma frame_release:
  assumes "frame s0 s" and "releasable s0 s r" and "release_if_temporary r s = Inr s'"
  shows "frame s0 s'"
proof -
  have wf: "wf_state s" using assms(1) by (simp add: frame_def)
  from wf assms(3) show ?thesis
  proof (cases rule: release_if_temporary_cases)
    case (1 p sm)
    then show ?thesis using assms(1) by simp
  next
    case (2 p sm)
    then have "next_addr s0 \<le> p"
      using assms(2) by (simp add: releasable_def persistent_def)
    then show ?thesis using 2 frame_remove [OF assms(1)] by simp
  qed
qed

lemma release_other:
  assumes "wf_state s" and "release_if_temporary r s = Inr s'" and "r \<noteq> Some a"
  shows "heap s' a = heap s a"
  using assms(1,2)
  by (cases rule: release_if_temporary_cases) (use assms(3) in auto)

lemma release_persistent:
  assumes "wf_state s" and "release_if_temporary r s = Inr s'" and "persistent s a"
  shows "persistent s' a"
  using assms(1,2)
  by (cases rule: release_if_temporary_cases) (use assms(3) in \<open>auto simp: persistent_def\<close>)

lemma release_next_addr:
  assumes "wf_state s" and "release_if_temporary r s = Inr s'"
  shows "next_addr s' = next_addr s"
  using assms by (cases rule: release_if_temporary_cases) auto

lemma release_args_frame:
  "frame s0 s \<Longrightarrow> \<forall>r\<in>set ps. releasable s0 s r \<Longrightarrow> release_args ps s = Inr s' \<Longrightarrow>
   frame s0 s' \<and> (\<forall>a. Some a \<notin> set ps \<longrightarrow> heap s' a = heap s a)"
proof (induction ps arbitrary: s)
  case Nil
  then show ?case by simp
next
  case (Cons p ps)
  from Cons.prems(3) obtain s1 where s1: "release_if_temporary p s = Inr s1"
    and rest: "release_args ps s1 = Inr s'"
    by (auto split: sum.splits)
  have wf: "wf_state s" using Cons.prems(1) by (simp add: frame_def)
  have f1: "frame s0 s1"
    using frame_release [OF Cons.prems(1) _ s1] Cons.prems(2) by simp
  have "\<forall>r\<in>set ps. releasable s0 s1 r"
    using Cons.prems(2) release_persistent [OF wf s1]
    by (auto simp: releasable_def split: option.splits)
  from Cons.IH [OF f1 this rest] release_other [OF wf s1]
  show ?case by auto
qed

lemma CopyValue_flags:
  "CopyValue env lsm rsm = Inr lsm' \<Longrightarrow> is_temporary lsm' = is_temporary lsm \<and> \<not> IsScope lsm'"
  by (auto simp: CopyValue_def IsScope_def split: content.splits option.splits)

lemma persistent_update:
  "heap s l = Some lsm \<Longrightarrow> is_temporary lsm' = is_temporary lsm \<Longrightarrow>
   persistent (s\<lparr>heap := (heap s)(l \<mapsto> lsm')\<rparr>) a = persistent s a"
  by (simp add: persistent_def)

lemma temporary_at_update:
  "heap s l = Some lsm \<Longrightarrow> is_temporary lsm' = is_temporary lsm \<Longrightarrow>
   temporary_at (s\<lparr>heap := (heap s)(l \<mapsto> lsm')\<rparr>) a = temporary_at s a"
  by (simp add: temporary_at_def)

lemma result_ok_update:
  "heap s l = Some lsm \<Longrightarrow> is_temporary lsm' = is_temporary lsm \<Longrightarrow>
   result_ok s0 (s\<lparr>heap := (heap s)(l \<mapsto> lsm')\<rparr>) r = result_ok s0 s r"
  by (simp add: result_ok_def persistent_update temporary_at_update next_addr_def split: option.splits)

lemma frame_update:
  assumes "frame s0 s" and "heap s l = Some lsm" and "is_temporary lsm' = is_temporary lsm"
    and "\<not> IsScope lsm'" and "result_ok s0 s (Some l)"
  shows "frame s0 (s\<lparr>heap := (heap s)(l \<mapsto> lsm')\<rparr>)"
proof -
  let ?s' = "s\<lparr>heap := (heap s)(l \<mapsto> lsm')\<rparr>"
  have wf: "wf_state ?s'"
    using assms(1,2,4) by (auto simp: frame_def wf_state_def)
  have pers: "\<forall>a. persistent s0 a \<longrightarrow> persistent ?s' a"
    using assms(1) persistent_update [OF assms(2,3)] by (simp add: frame_def)
  have old: "\<forall>a sm. heap s0 a = Some sm \<and> is_temporary sm \<longrightarrow> heap ?s' a = Some sm"
  proof (intro allI impI)
    fix a sm assume a: "heap s0 a = Some sm \<and> is_temporary sm"
    then have sa: "heap s a = Some sm" and lt: "a < next_addr s0"
      using assms(1) by (auto simp: frame_def wf_state_def)
    have "a \<noteq> l"
    proof
      assume "a = l"
      with sa a assms(5) lt show False by (simp add: result_ok_def persistent_def)
    qed
    with sa show "heap ?s' a = Some sm" by simp
  qed
  have dead: "\<forall>a. a < next_addr s0 \<and> heap s0 a = None \<longrightarrow> heap ?s' a = None"
    using assms(1,2) by (auto simp: frame_def)
  show ?thesis
    unfolding frame_def using wf pers old dead assms(1) by (simp add: frame_def)
qed

lemma Call_result:
  assumes "wf_env env" and "wf_state s" and "Call env fn args s = Inr (r, s')"
  shows "frame s s' \<and> result_ok s s' r"
proof -
  from assms(3) have "\<exists>k sms c p. fun_table env k sms = Some c \<and>
      NewPtr (new_temporary c) s = (p, s') \<and> r = Some p"
    by (auto simp: Call_def split: sum.splits content.splits option.splits prod.splits)
  then obtain k sms c p where c: "fun_table env k sms = Some c"
    and new: "NewPtr (new_temporary c) s = (p, s')" and r: "r = Some p"
    by blast
  have "case c of Scope tbl obj owned \<Rightarrow> False | _ \<Rightarrow> True"
    using c assms(1) unfolding wf_env_def by blast
  then have "\<not> IsScope (new_temporary c)"
    by (simp add: IsScope_def new_temporary_def split: content.splits)
  moreover have "is_temporary (new_temporary c)" by (simp add: new_temporary_def)
  ultimately show ?thesis
    using frame_NewPtr [OF assms(2) _ new] result_ok_NewPtr [OF assms(2) _ new] r by auto
qed

lemma MakeTempSymbol_result:
  assumes "wf_state s" and "MakeTempSymbol v s = (r, s')"
  shows "frame s s' \<and> result_ok s s' (Some r)"
proof -
  let ?sm = "new_temporary (case v of NDouble d \<Rightarrow> DoubleVar d | NString t \<Rightarrow> StringVar t)"
  have new: "NewPtr ?sm s = (r, s')" using assms(2) by (simp add: MakeTempSymbol_def)
  have "\<not> IsScope ?sm" by (simp add: IsScope_def new_temporary_def split: native.splits)
  moreover have "is_temporary ?sm" by (simp add: new_temporary_def)
  ultimately show ?thesis
    using frame_NewPtr [OF assms(1) _ new] result_ok_NewPtr [OF assms(1) _ new] by auto
qed

lemma leaves_persistent_children:
  "leaves_persistent s (ASTNode_Block sc cs) = (\<forall>t\<in>set cs. leaves_persistent s t)"
  "leaves_persistent s (ASTNode_Math1 nm f cs) = (\<forall>t\<in>set cs. leaves_persistent s t)"
  "leaves_persistent s (ASTNode_Op2 nm T1 T2 g cs) = (\<forall>t\<in>set cs. leaves_persistent s t)"
  "leaves_persistent s (ASTNode_Assign cs) = (\<forall>t\<in>set cs. leaves_persistent s t)"
  "leaves_persistent s (ASTNode_Call cs) = (\<forall>t\<in>set cs. leaves_persistent s t)"
  "leaves_persistent s (ASTNode_Event nm k cs) = (\<forall>t\<in>set cs. leaves_persistent s t)"
  by (auto simp: leaves_persistent_def)

lemma frame_wf: "frame s s' \<Longrightarrow> wf_state s'"
  by (simp add: frame_def)

lemma frame_next: "frame s s' \<Longrightarrow> next_addr s \<le> next_addr s'"
  by (simp add: frame_def)

lemma Process_frame_all: "Process_ok env t s"
  and Process_args_frame_all: "Process_args_ok env ts s"
  and Process_statements_frame_all: "Process_statements_ok env ts s"
proof (induction env t s and env ts s and env ts s
    rule: Process_Process_args_Process_statements.induct)
  case (1 env symbol_ptr own_symbol s)
  show ?case
    by (auto simp: Process_ok_def frame_refl result_ok_def leaves_persistent_def)
next
  case (2 env scope_ptr children s)
  then show ?case
    by (auto simp: Process_ok_def Process_statements_ok_def leaves_persistent_children
        result_ok_def split: sum.splits)
next
  case (3 env nm f c s)
  show ?case unfolding Process_ok_def
  proof (intro impI allI)
    fix r s'
    assume env: "wf_env env" and wf: "wf_state s"
      and lv: "leaves_persistent s (ASTNode_Math1 nm f [c])"
      and run: "Process env (ASTNode_Math1 nm f [c]) s = Inr (r, s')"
    from run obtain inp s1 s2 v p where c: "Process env c s = Inr (inp, s1)"
      and rel: "release_if_temporary inp s1 = Inr s2"
      and mk: "MakeTempSymbol v s2 = (p, s')" and r: "r = Some p"
      by (auto split: sum.splits option.splits prod.splits)
    from 3 env wf lv c have f1: "frame s s1" and r1: "result_ok s s1 inp"
      by (auto simp: Process_ok_def leaves_persistent_children)
    have f2: "frame s s2"
      using frame_release [OF f1 result_ok_releasable [OF r1] rel] .
    from MakeTempSymbol_result [OF frame_wf [OF f2] mk]
    have f3: "frame s2 s'" and r3: "result_ok s2 s' (Some p)" by auto
    show "frame s s' \<and> result_ok s s' r"
      using frame_trans [OF f2 f3] result_ok_base [OF r3 frame_next [OF f2]] r by simp
  qed
next
  case (5 env nm T1 T2 f c1 c2 s)
  show ?case unfolding Process_ok_def
  proof (intro impI allI)
    fix r s'
    assume env: "wf_env env" and wf: "wf_state s"
      and lv: "leaves_persistent s (ASTNode_Op2 nm T1 T2 f [c1, c2])"
      and run: "Process env (ASTNode_Op2 nm T1 T2 f [c1, c2]) s = Inr (r, s')"
    from run obtain in1 s1 in2 s2 s3 s4 v p where c1: "Process env c1 s = Inr (in1, s1)"
      and c2: "Process env c2 s1 = Inr (in2, s2)"
      and rel1: "release_if_temporary in1 s2 = Inr s3"
      and rel2: "release_if_temporary in2 s3 = Inr s4"
      and mk: "MakeTempSymbol v s4 = (p, s')" and r: "r = Some p"
      by (auto split: sum.splits option.splits prod.splits)
    from 5(1) env wf lv c1 have f1: "frame s s1" and r1: "result_ok s s1 in1"
      by (auto simp: Process_ok_def leaves_persistent_children)
    have lv2: "leaves_persistent s1 c2"
      using lv leaves_persistent_frame [OF _ f1] by (simp add: leaves_persistent_children)
    from 5(2) [OF c1 refl] env frame_wf [OF f1] lv2 c2
    have f12: "frame s1 s2" and r2': "result_ok s1 s2 in2"
      by (auto simp: Process_ok_def)
    have f2: "frame s s2" using frame_trans [OF f1 f12] .
    have r1': "result_ok s s2 in1" using result_ok_later [OF r1 f12] .
    have r2: "result_ok s s2 in2" using result_ok_base [OF r2' frame_next [OF f1]] .
    have f3: "frame s s3"
      using frame_release [OF f2 result_ok_releasable [OF r1'] rel1] .
    have "releasable s s3 in2"
      using result_ok_releasable [OF r2] release_persistent [OF frame_wf [OF f2] rel1]
      by (auto simp: releasable_def split: option.splits)
    then have f4: "frame s s4" using frame_release [OF f3 _ rel2] by simp
    from MakeTempSymbol_result [OF frame_wf [OF f4] mk]
    have f5: "frame s4 s'" and r5: "result_ok s4 s' (Some p)" by auto
    show "frame s s' \<and> result_ok s s' r"
      using frame_trans [OF f4 f5] result_ok_base [OF r5 frame_next [OF f4]] r by simp
  qed
next
  case (7 env c1 c2 s)
  show ?case unfolding Process_ok_def
  proof (intro impI allI)
    fix r s'
    assume env: "wf_env env" and wf: "wf_state s"
      and lv: "leaves_persistent s (ASTNode_Assign [c1, c2])"
      and run: "Process env (ASTNode_Assign [c1, c2]) s = Inr (r, s')"
    from run obtain l s1 rhs s2 lsm rsm lsm' where c1: "Process env c1 s = Inr (Some l, s1)"
      and c2: "Process env c2 s1 = Inr (rhs, s2)"
      and hl: "heap s2 l = Some lsm"
      and cp: "CopyValue env lsm rsm = Inr lsm'"
      and rel: "release_if_temporary rhs (s2\<lparr>heap := (heap s2)(l \<mapsto> lsm')\<rparr>) = Inr s'"
      and r: "r = Some l"
      by (auto split: sum.splits option.splits prod.splits)
    from 7(1) env wf lv c1 have f1: "frame s s1" and r1: "result_ok s s1 (Some l)"
      by (auto simp: Process_ok_def leaves_persistent_children)
    have lv2: "leaves_persistent s1 c2"
      using lv leaves_persistent_frame [OF _ f1] by (simp add: leaves_persistent_children)
    from 7(2) [OF c1 refl] env frame_wf [OF f1] lv2 c2
    have f12: "frame s1 s2" and r2': "result_ok s1 s2 rhs"
      by (auto simp: Process_ok_def)
    have f2: "frame s s2" using frame_trans [OF f1 f12] .
    have r1': "result_ok s s2 (Some l)" using result_ok_later [OF r1 f12] .
    have r2: "result_ok s s2 rhs" using result_ok_base [OF r2' frame_next [OF f1]] .
    let ?s3 = "s2\<lparr>heap := (heap s2)(l \<mapsto> lsm')\<rparr>"
    from CopyValue_flags [OF cp] have fl: "is_temporary lsm' = is_temporary lsm"
      and ns: "\<not> IsScope lsm'" by auto
    have f3: "frame s ?s3" using frame_update [OF f2 hl fl ns r1'] .
    have rl3: "result_ok s ?s3 (Some l)" using r1' result_ok_update [OF hl fl] by simp
    have rr3: "result_ok s ?s3 rhs" using r2 result_ok_update [OF hl fl] by simp
    have f4: "frame s s'" using frame_release [OF f3 result_ok_releasable [OF rr3] rel] .
    have "result_ok s s' (Some l)"
    proof -
      from frame_wf [OF f3] rel show ?thesis
      proof (cases rule: release_if_temporary_cases)
        case (1 p sm)
        then show ?thesis using rl3 by simp
      next
        case (2 p sm)
        have "p \<noteq> l"
        proof
          assume "p = l"
          then have tl: "temporary_at ?s3 l" using 2 by (simp add: temporary_at_def)
          then have "next_addr s \<le> l" using rl3 by (auto simp: result_ok_def persistent_def temporary_at_def split: option.splits)
          have "temporary_at s1 l"
            using r1 tl f12 hl fl
            by (auto simp: result_ok_def persistent_def temporary_at_def frame_def split: option.splits)
          then have "l < next_addr s1" using frame_wf [OF f1]
            by (auto simp: temporary_at_def wf_state_def split: option.splits)
          moreover have "\<not> persistent s2 p" using 2 \<open>p = l\<close> hl fl
            by (auto simp: persistent_def)
          then have "next_addr s1 \<le> p" using r2' 2(1)
            by (auto simp: result_ok_def)
          ultimately show False using \<open>p = l\<close> by simp
        qed
        then show ?thesis using rl3 2
          by (auto simp: result_ok_def persistent_def temporary_at_def)
      qed
    qed
    then show "frame s s' \<and> result_ok s s' r" using f4 r by simp
  qed
next
  case (9 env c rest s)
  show ?case unfolding Process_ok_def
  proof (intro impI allI)
    fix r s'
    assume env: "wf_env env" and wf: "wf_state s"
      and lv: "leaves_persistent s (ASTNode_Call (c # rest))"
      and run: "Process env (ASTNode_Call (c # rest)) s = Inr (r, s')"
    from run obtain fn s1 args s2 s3 where c: "Process env c s = Inr (fn, s1)"
      and a: "Process_args env rest s1 = Inr (args, s2)"
      and call: "Call env fn args s2 = Inr (r, s3)"
      and rel: "release_args args s3 = Inr s'"
      by (auto split: sum.splits option.splits prod.splits)
    from 9(1) env wf lv c have f1: "frame s s1"
      by (auto simp: Process_ok_def leaves_persistent_children)
    have lv2: "\<forall>t\<in>set rest. leaves_persistent s1 t"
      using lv leaves_persistent_frame [OF _ f1] by (simp add: leaves_persistent_children)
    from 9(2) [OF c refl] env frame_wf [OF f1] lv2 a
    have f12: "frame s1 s2" and ra: "\<forall>r\<in>set args. result_ok s1 s2 r"
      by (auto simp: Process_args_ok_def)
    have f2: "frame s s2" using frame_trans [OF f1 f12] .
    from Call_result [OF env frame_wf [OF f2] call]
    have f23: "frame s2 s3" and rr: "result_ok s2 s3 r" by auto
    have f3: "frame s s3" using frame_trans [OF f2 f23] .
    have ra3: "\<forall>r\<in>set args. result_ok s s3 r"
      using ra result_ok_later [OF _ f23] result_ok_base [OF _ frame_next [OF f1]] by blast
    then have "\<forall>r\<in>set args. releasable s s3 r" using result_ok_releasable by blast
    from release_args_frame [OF f3 this rel]
    have f4: "frame s s'" and keep: "\<forall>a. Some a \<notin> set args \<longrightarrow> heap s' a = heap s3 a" by auto
    have "result_ok s s' r"
    proof (cases r)
      case None
      then show ?thesis by (simp add: result_ok_def)
    next
      case (Some p)
      from call Some have p: "p = next_addr s2" and tp: "temporary_at s3 p"
        by (auto simp: Call_def NewPtr_def temporary_at_def new_temporary_def
            split: sum.splits content.splits option.splits prod.splits)
      have "Some p \<notin> set args"
      proof
        assume "Some p \<in> set args"
        with ra have "result_ok s1 s2 (Some p)" by blast
        then have "heap s2 p \<noteq> None"
          by (auto simp: result_ok_def persistent_def temporary_at_def split: option.splits)
        then show False using wf_state_fresh [OF frame_wf [OF f2], of p] p by simp
      qed
      with keep have "heap s' p = heap s3 p" by simp
      with tp have "temporary_at s' p" by (simp add: temporary_at_def)
      moreover have "next_addr s \<le> p" using p frame_next [OF f2] by simp
      ultimately show ?thesis using Some by (simp add: result_ok_def)
    qed
    with f4 show "frame s s' \<and> result_ok s s' r" by simp
  qed
next
  case (11 env nm k action rest s)
  show ?case unfolding Process_ok_def
  proof (intro impI allI)
    fix r s'
    assume env: "wf_env env" and wf: "wf_state s"
      and lv: "leaves_persistent s (ASTNode_Event nm k (action # rest))"
      and run: "Process env (ASTNode_Event nm k (action # rest)) s = Inr (r, s')"
    from run obtain args s1 where a: "Process_args env rest s = Inr (args, s1)"
      and s': "s' = s1\<lparr>host := setup_table env k action args (host s1)\<rparr>" and r: "r = None"
      by (auto split: sum.splits prod.splits)
    from 11 env wf lv a have f1: "frame s s1"
      by (auto simp: Process_args_ok_def leaves_persistent_children)
    then have "frame s s'" unfolding s' frame_def wf_state_def persistent_def by simp
    then show "frame s s' \<and> result_ok s s' r" using r by (simp add: result_ok_def)
  qed
next
  case (13 env s)
  show ?case by (simp add: Process_args_ok_def frame_refl)
next
  case (14 env c rest s)
  show ?case unfolding Process_args_ok_def
  proof (intro impI allI)
    fix ps s'
    assume env: "wf_env env" and wf: "wf_state s"
      and lv: "\<forall>t\<in>set (c # rest). leaves_persistent s t"
      and run: "Process_args env (c # rest) s = Inr (ps, s')"
    from run obtain p s1 qs where c: "Process env c s = Inr (p, s1)"
      and a: "Process_args env rest s1 = Inr (qs, s')" and ps: "ps = p # qs"
      by (auto split: sum.splits prod.splits)
    from 14(1) env wf lv c have f1: "frame s s1" and r1: "result_ok s s1 p"
      by (auto simp: Process_ok_def)
    have lv2: "\<forall>t\<in>set rest. leaves_persistent s1 t"
      using lv leaves_persistent_frame [OF _ f1] by simp
    from 14(2) [OF c refl] env frame_wf [OF f1] lv2 a
    have f12: "frame s1 s'" and ra: "\<forall>r\<in>set qs. result_ok s1 s' r"
      by (auto simp: Process_args_ok_def)
    show "frame s s' \<and> (\<forall>r\<in>set ps. result_ok s s' r)"
      using frame_trans [OF f1 f12] result_ok_later [OF r1 f12] ra
        result_ok_base [OF _ frame_next [OF f1]] ps by auto
  qed
next
  case (15 env s)
  show ?case by (simp add: Process_statements_ok_def frame_refl)
next
  case (16 env node rest s)
  show ?case unfolding Process_statements_ok_def
  proof (intro impI allI)
    fix s'
    assume env: "wf_env env" and wf: "wf_state s"
      and lv: "\<forall>t\<in>set (node # rest). leaves_persistent s t"
      and run: "Process_statements env (node # rest) s = Inr s'"
    from run obtain out s1 s2 where c: "Process env node s = Inr (out, s1)"
      and rel: "(case out of None \<Rightarrow> Inr s1 | Some a \<Rightarrow> release_if_temporary out s1) = Inr s2"
      and a: "Process_statements env rest s2 = Inr s'"
      by (auto split: sum.splits prod.splits)
    from 16(1) env wf lv c have f1: "frame s s1" and r1: "result_ok s s1 out"
      by (auto simp: Process_ok_def)
    have f2: "frame s s2"
    proof (cases out)
      case None
      with rel f1 show ?thesis by simp
    next
      case (Some p)
      with rel have "release_if_temporary out s1 = Inr s2" by simp
      from frame_release [OF f1 result_ok_releasable [OF r1] this] show ?thesis .
    qed
    have lv2: "\<forall>t\<in>set rest. leaves_persistent s2 t"
      using lv leaves_persistent_frame [OF _ f2] by simp
    from 16(2) [OF c refl rel] env frame_wf [OF f2] lv2 a
    have "frame s2 s'" by (auto simp: Process_statements_ok_def)
    with f2 show "frame s s'" using frame_trans by blast
  qed
qed (simp_all add: Process_ok_def)

section \<open>Consequences for the single steps\<close>

lemma Process_frame:
  "wf_env env \<Longrightarrow> wf_state s \<Longrightarrow> leaves_persistent s t \<Longrightarrow> Process env t s = Inr (r, s') \<Longrightarrow>
   frame s s' \<and> result_ok s s' r"
  using Process_frame_all [of env t s] by (simp add: Process_ok_def)

lemma Process_args_frame:
  "wf_env env \<Longrightarrow> wf_state s \<Longrightarrow> \<forall>t\<in>set ts. leaves_persistent s t \<Longrightarrow>
   Process_args env ts s = Inr (ps, s') \<Longrightarrow>
   frame s s' \<and> (\<forall>r\<in>set ps. result_ok s s' r)"
  using Process_args_frame_all [of env ts s] by (simp add: Process_args_ok_def)

lemma Process_statements_frame:
  "wf_env env \<Longrightarrow> wf_state s \<Longrightarrow> \<forall>t\<in>set ts. leaves_persistent s t \<Longrightarrow>
   Process_statements env ts s = Inr s' \<Longrightarrow> frame s s'"
  using Process_statements_frame_all [of env ts s] by (simp add: Process_statements_ok_def)

lemma release_drop:
  assumes "wf_state s" and "heap s p = Some sm"
  shows "release_if_temporary (Some p) s = Inr (drop_temporary p s)"
  using assms Delete_temporary [OF assms]
  by (simp add: release_if_temporary_def drop_temporary_def temporary_at_def)

lemma wf_state_drop: "wf_state s \<Longrightarrow> wf_state (drop_temporary p s)"
  by (simp add: wf_state_def drop_temporary_def)

lemma result_live: "result_ok s0 s (Some p) \<Longrightarrow> heap s p \<noteq> None"
  by (auto simp: result_ok_def persistent_def temporary_at_def split: option.splits)

lemma wf_strict_env: "wf_env strict_env"
  by (auto simp: wf_env_def strict_env_def split: if_splits list.splits content.splits)

lemma distinct_results:
  assumes "frame s s1" and "result_ok s s1 (Some p1)" and "frame s1 s2"
    and "result_ok s1 s2 (Some p2)" and "temporary_at s2 p1 \<or> temporary_at s2 p2"
  shows "p1 \<noteq> p2"
proof
  assume eq: "p1 = p2"
  have "heap s1 p1 \<noteq> None" using result_live [OF assms(2)] .
  then have lt: "p1 < next_addr s1"
    using assms(1) by (auto simp: frame_def wf_state_def)
  have "\<not> persistent s2 p2" using assms(5) eq
    by (auto simp: persistent_def temporary_at_def split: option.splits)
  then have "next_addr s1 \<le> p2" using assms(4) by (simp add: result_ok_def)
  with lt eq show False by simp
qed

lemma release_wf:
  assumes "wf_state s" and "release_if_temporary r s = Inr s'"
  shows "wf_state s'"
  using assms(1,2)
proof (cases rule: release_if_temporary_cases)
  case (1 p sm)
  with assms(1) show ?thesis by simp
next
  case (2 p sm)
  with assms(1) show ?thesis unfolding wf_state_def by simp
qed

lemma release_args_persistent:
  "wf_state s \<Longrightarrow> release_args ps s = Inr s' \<Longrightarrow> persistent s a \<Longrightarrow> persistent s' a"
proof (induction ps arbitrary: s)
  case Nil
  then show ?case by simp
next
  case (Cons p ps)
  from Cons.prems(2) obtain s1 where s1: "release_if_temporary p s = Inr s1"
    and rest: "release_args ps s1 = Inr s'"
    by (auto split: sum.splits)
  show ?case
    using Cons.IH [OF release_wf [OF Cons.prems(1) s1] rest
        release_persistent [OF Cons.prems(1) s1 Cons.prems(3)]] .
qed

text \<open>The definitions that evaluate the concrete stores and trees.\<close>

lemmas example_defs =
  strict_env_def literal_state_def owned_state_def two_plus_two_def add_closure_def
  callee_state_def callee_state1_def callee_state2_def callee_state3_def callee_state4_def
  new_temporary_def Symbol_DoubleVar_def Symbol_StringVar_def Symbol_Function_def Symbol_Scope_def

lemmas eval_defs =
  deref_def As_def release_if_temporary_def MakeTempSymbol_def NewPtr_def Call_def
  Delete_variable IsScope_def

section \<open>The balance of allocation and release\<close>

text \<open>
  In a tree without handoff every temporary that evaluation creates is released by the
  node that consumes it, except the one that is returned. The proof follows the recursion
  of \<open>Process\<close> again and counts the live objects at each step.
\<close>

lemma release_dom:
  assumes "wf_state s" and "release_if_temporary r s = Inr s'"
  shows "dom (heap s') = dom (heap s) - returned_temporary s r"
  using assms
  by (cases rule: release_if_temporary_cases)
    (auto simp: returned_temporary_def temporary_at_def)

lemma returned_temporary_fresh:
  assumes "frame s0 s" and "result_ok s0 s r"
  shows "returned_temporary s r \<inter> dom (heap s0) = {}"
proof -
  have "\<And>p. r = Some p \<Longrightarrow> temporary_at s p \<Longrightarrow> heap s0 p = None"
    using assms wf_state_fresh [of s0]
    by (auto simp: result_ok_def persistent_def temporary_at_def frame_def split: option.splits)
  then show ?thesis by (auto simp: returned_temporary_def split: option.splits if_splits)
qed

lemma returned_temporary_live: "returned_temporary s r \<subseteq> dom (heap s)"
  by (auto simp: returned_temporary_def temporary_at_def split: option.splits if_splits)

lemma returned_temporary_later:
  assumes "result_ok s0 s1 r" and "frame s1 s2"
  shows "returned_temporary s2 r = returned_temporary s1 r"
  using assms
  by (auto simp: returned_temporary_def result_ok_def frame_def persistent_def temporary_at_def
      split: option.splits if_splits)

lemma returned_temporary_update:
  "heap s l = Some lsm \<Longrightarrow> is_temporary lsm' = is_temporary lsm \<Longrightarrow>
   returned_temporary (s\<lparr>heap := (heap s)(l \<mapsto> lsm')\<rparr>) r = returned_temporary s r"
  by (simp add: returned_temporary_def temporary_at_update split: option.splits)

lemma returned_temporary_release:
  assumes "wf_state s" and "release_if_temporary r s = Inr s'"
  shows "returned_temporary s' q = returned_temporary s q - returned_temporary s r"
  using assms
  by (cases rule: release_if_temporary_cases)
    (auto simp: returned_temporary_def temporary_at_def split: option.splits if_splits)

lemma release_args_dom:
  "wf_state s \<Longrightarrow> release_args ps s = Inr s' \<Longrightarrow>
   dom (heap s') = dom (heap s) - (\<Union>r\<in>set ps. returned_temporary s r)"
proof (induction ps arbitrary: s)
  case Nil
  then show ?case by simp
next
  case (Cons p ps)
  from Cons.prems(2) obtain s1 where s1: "release_if_temporary p s = Inr s1"
    and rest: "release_args ps s1 = Inr s'"
    by (auto split: sum.splits)
  have "dom (heap s') = dom (heap s1) - (\<Union>r\<in>set ps. returned_temporary s1 r)"
    using Cons.IH [OF release_wf [OF Cons.prems(1) s1] rest] .
  then show ?case
    using release_dom [OF Cons.prems(1) s1] returned_temporary_release [OF Cons.prems(1) s1]
    by auto
qed

lemma MakeTempSymbol_dom:
  assumes "MakeTempSymbol v s = (p, s')"
  shows "dom (heap s') = dom (heap s) \<union> {p} \<and> returned_temporary s' (Some p) = {p}"
  using assms
  by (auto simp: MakeTempSymbol_def NewPtr_def returned_temporary_def temporary_at_def
      new_temporary_def)

lemma Call_dom:
  assumes "Call env fn args s = Inr (r, s')"
  shows "\<exists>p. r = Some p \<and> p = next_addr s \<and> dom (heap s') = dom (heap s) \<union> {p} \<and>
             temporary_at s' p"
  using assms
  by (auto simp: Call_def NewPtr_def temporary_at_def new_temporary_def
      split: sum.splits content.splits option.splits prod.splits)

lemma Process_balanced_all: "Process_balanced env t s"
  and Process_args_balanced_all: "Process_args_balanced env ts s"
  and Process_statements_balanced_all: "Process_statements_balanced env ts s"
proof (induction env t s and env ts s and env ts s
    rule: Process_Process_args_Process_statements.induct)
  case (1 env symbol_ptr own_symbol s)
  show ?case
    by (auto simp: Process_balanced_def leaves_persistent_def returned_temporary_def
        persistent_def temporary_at_def split: option.splits)
next
  case (2 env scope_ptr children s)
  show ?case unfolding Process_balanced_def
  proof (intro impI allI)
    fix r s'
    assume env: "wf_env env" and wf: "wf_state s"
      and lv: "leaves_persistent s (ASTNode_Block scope_ptr children)"
      and nh: "no_handoff (ASTNode_Block scope_ptr children)"
      and run: "Process env (ASTNode_Block scope_ptr children) s = Inr (r, s')"
    from run have st: "Process_statements env children s = Inr s'" and r: "r = None"
      by (auto split: sum.splits)
    from 2 env wf lv nh st have "dom (heap s') = dom (heap s)"
      by (simp add: Process_statements_balanced_def leaves_persistent_children)
    with r show "dom (heap s') = dom (heap s) \<union> returned_temporary s' r"
      by (simp add: returned_temporary_def)
  qed
next
  case (3 env nm f c s)
  show ?case unfolding Process_balanced_def
  proof (intro impI allI)
    fix r s'
    assume env: "wf_env env" and wf: "wf_state s"
      and lv: "leaves_persistent s (ASTNode_Math1 nm f [c])"
      and nh: "no_handoff (ASTNode_Math1 nm f [c])"
      and run: "Process env (ASTNode_Math1 nm f [c]) s = Inr (r, s')"
    from run obtain inp s1 s2 v p where c: "Process env c s = Inr (inp, s1)"
      and rel: "release_if_temporary inp s1 = Inr s2"
      and mk: "MakeTempSymbol v s2 = (p, s')" and r: "r = Some p"
      by (auto split: sum.splits option.splits prod.splits)
    have lvc: "leaves_persistent s c" using lv by (simp add: leaves_persistent_children)
    from Process_frame [OF env wf lvc c] have f1: "frame s s1" and r1: "result_ok s s1 inp"
      by auto
    from 3 env wf lvc nh c have d1: "dom (heap s1) = dom (heap s) \<union> returned_temporary s1 inp"
      by (auto simp: Process_balanced_def)
    have "dom (heap s2) = dom (heap s)"
      unfolding release_dom [OF frame_wf [OF f1] rel] d1
      using returned_temporary_fresh [OF f1 r1] by blast
    with MakeTempSymbol_dom [OF mk] r
    show "dom (heap s') = dom (heap s) \<union> returned_temporary s' r" by simp
  qed
next
  case (5 env nm T1 T2 f c1 c2 s)
  show ?case unfolding Process_balanced_def
  proof (intro impI allI)
    fix r s'
    assume env: "wf_env env" and wf: "wf_state s"
      and lv: "leaves_persistent s (ASTNode_Op2 nm T1 T2 f [c1, c2])"
      and nh: "no_handoff (ASTNode_Op2 nm T1 T2 f [c1, c2])"
      and run: "Process env (ASTNode_Op2 nm T1 T2 f [c1, c2]) s = Inr (r, s')"
    from run obtain in1 s1 in2 s2 s3 s4 v p where c1: "Process env c1 s = Inr (in1, s1)"
      and c2: "Process env c2 s1 = Inr (in2, s2)"
      and rel1: "release_if_temporary in1 s2 = Inr s3"
      and rel2: "release_if_temporary in2 s3 = Inr s4"
      and mk: "MakeTempSymbol v s4 = (p, s')" and r: "r = Some p"
      by (auto split: sum.splits option.splits prod.splits)
    have lv1: "leaves_persistent s c1" and lv2: "leaves_persistent s c2"
      using lv by (simp_all add: leaves_persistent_children)
    from Process_frame [OF env wf lv1 c1] have f1: "frame s s1" and r1: "result_ok s s1 in1"
      by auto
    have lv2': "leaves_persistent s1 c2" using leaves_persistent_frame [OF lv2 f1] .
    from Process_frame [OF env frame_wf [OF f1] lv2' c2]
    have f12: "frame s1 s2" and r2: "result_ok s1 s2 in2" by auto
    from 5(1) env wf lv1 nh c1
    have d1: "dom (heap s1) = dom (heap s) \<union> returned_temporary s1 in1"
      by (auto simp: Process_balanced_def)
    from 5(2) [OF c1 refl] env frame_wf [OF f1] lv2' nh c2
    have d2: "dom (heap s2) = dom (heap s1) \<union> returned_temporary s2 in2"
      by (auto simp: Process_balanced_def)
    have e1: "returned_temporary s2 in1 = returned_temporary s1 in1"
      using returned_temporary_later [OF r1 f12] .
    have n1: "returned_temporary s1 in1 \<inter> dom (heap s) = {}"
      using returned_temporary_fresh [OF f1 r1] .
    have n2: "returned_temporary s2 in2 \<inter> dom (heap s1) = {}"
      using returned_temporary_fresh [OF f12 r2] .
    have d3: "dom (heap s3) = dom (heap s2) - returned_temporary s2 in1"
      using release_dom [OF frame_wf [OF f12] rel1] .
    have e3: "returned_temporary s3 in2 = returned_temporary s2 in2 - returned_temporary s2 in1"
      using returned_temporary_release [OF frame_wf [OF f12] rel1] .
    have d4: "dom (heap s4) = dom (heap s3) - returned_temporary s3 in2"
      using release_dom [OF release_wf [OF frame_wf [OF f12] rel1] rel2] .
    have "dom (heap s4) = dom (heap s)"
      unfolding d4 d3 e3 e1 d2 d1 using n1 n2 [unfolded d1] by blast
    with MakeTempSymbol_dom [OF mk] r
    show "dom (heap s') = dom (heap s) \<union> returned_temporary s' r" by simp
  qed
next
  case (7 env c1 c2 s)
  show ?case unfolding Process_balanced_def
  proof (intro impI allI)
    fix r s'
    assume env: "wf_env env" and wf: "wf_state s"
      and lv: "leaves_persistent s (ASTNode_Assign [c1, c2])"
      and nh: "no_handoff (ASTNode_Assign [c1, c2])"
      and run: "Process env (ASTNode_Assign [c1, c2]) s = Inr (r, s')"
    from run obtain l s1 rhs s2 lsm rsm lsm' where c1: "Process env c1 s = Inr (Some l, s1)"
      and c2: "Process env c2 s1 = Inr (rhs, s2)"
      and hl: "heap s2 l = Some lsm"
      and cp: "CopyValue env lsm rsm = Inr lsm'"
      and rel: "release_if_temporary rhs (s2\<lparr>heap := (heap s2)(l \<mapsto> lsm')\<rparr>) = Inr s'"
      and r: "r = Some l"
      by (auto split: sum.splits option.splits prod.splits)
    let ?s3 = "s2\<lparr>heap := (heap s2)(l \<mapsto> lsm')\<rparr>"
    have lv1: "leaves_persistent s c1" and lv2: "leaves_persistent s c2"
      using lv by (simp_all add: leaves_persistent_children)
    from Process_frame [OF env wf lv1 c1]
    have f1: "frame s s1" and r1: "result_ok s s1 (Some l)" by auto
    have lv2': "leaves_persistent s1 c2" using leaves_persistent_frame [OF lv2 f1] .
    from Process_frame [OF env frame_wf [OF f1] lv2' c2]
    have f12: "frame s1 s2" and r2: "result_ok s1 s2 rhs" by auto
    from 7(1) env wf lv1 nh c1
    have d1: "dom (heap s1) = dom (heap s) \<union> returned_temporary s1 (Some l)"
      by (auto simp: Process_balanced_def)
    from 7(2) [OF c1 refl] env frame_wf [OF f1] lv2' nh c2
    have d2: "dom (heap s2) = dom (heap s1) \<union> returned_temporary s2 rhs"
      by (auto simp: Process_balanced_def)
    from CopyValue_flags [OF cp] have fl: "is_temporary lsm' = is_temporary lsm"
      and ns: "\<not> IsScope lsm'" by auto
    have wf3: "wf_state ?s3"
      using frame_wf [OF f12] hl ns by (auto simp: wf_state_def)
    have d3: "dom (heap ?s3) = dom (heap s2)" using hl by auto
    have e1: "returned_temporary s2 (Some l) = returned_temporary s1 (Some l)"
      using returned_temporary_later [OF r1 f12] .
    have e3: "returned_temporary ?s3 q = returned_temporary s2 q" for q
      using returned_temporary_update [OF hl fl] .
    have n2: "returned_temporary s2 rhs \<inter> dom (heap s1) = {}"
      using returned_temporary_fresh [OF f12 r2] .
    have l1: "returned_temporary s1 (Some l) \<subseteq> dom (heap s1)"
      using returned_temporary_live .
    have d4: "dom (heap s') = dom (heap ?s3) - returned_temporary ?s3 rhs"
      using release_dom [OF wf3 rel] .
    have e4: "returned_temporary s' (Some l) =
        returned_temporary ?s3 (Some l) - returned_temporary ?s3 rhs"
      using returned_temporary_release [OF wf3 rel] .
    show "dom (heap s') = dom (heap s) \<union> returned_temporary s' r"
      unfolding r d4 e4 e3 d3 d2 e1 using n2 l1 [unfolded d1] unfolding d1 by blast
  qed
next
  case (9 env c rest s)
  show ?case unfolding Process_balanced_def
  proof (intro impI allI)
    fix r s'
    assume env: "wf_env env" and wf: "wf_state s"
      and lv: "leaves_persistent s (ASTNode_Call (c # rest))"
      and nh: "no_handoff (ASTNode_Call (c # rest))"
      and run: "Process env (ASTNode_Call (c # rest)) s = Inr (r, s')"
    from nh obtain fp own where leaf: "c = ASTNode_Leaf fp own"
      and nhr: "\<forall>a\<in>set rest. no_handoff a"
      by (auto split: node.splits)
    from run leaf obtain args s2 s3 where a: "Process_args env rest s = Inr (args, s2)"
      and call: "Call env (Some fp) args s2 = Inr (r, s3)"
      and rel: "release_args args s3 = Inr s'"
      by (auto split: sum.splits option.splits prod.splits)
    have c: "Process env c s = Inr (Some fp, s)" using leaf by simp
    have lvr: "\<forall>t\<in>set rest. leaves_persistent s t"
      using lv by (simp add: leaves_persistent_children)
    from Process_args_frame [OF env wf lvr a]
    have f2: "frame s s2" and ra: "\<forall>r\<in>set args. result_ok s s2 r" by auto
    from 9(2) [OF c refl] env wf lvr nhr a
    have d2: "dom (heap s2) = dom (heap s) \<union> (\<Union>r\<in>set args. returned_temporary s2 r)"
      by (auto simp: Process_args_balanced_def)
    from Call_result [OF env frame_wf [OF f2] call] have f23: "frame s2 s3" by simp
    from Call_dom [OF call] obtain p where p: "r = Some p" "p = next_addr s2"
      and d3: "dom (heap s3) = dom (heap s2) \<union> {p}" and tp: "temporary_at s3 p"
      by blast
    have e3: "\<forall>r\<in>set args. returned_temporary s3 r = returned_temporary s2 r"
      using ra returned_temporary_later [OF _ f23] by blast
    have d4: "dom (heap s') = dom (heap s3) - (\<Union>r\<in>set args. returned_temporary s3 r)"
      using release_args_dom [OF frame_wf [OF f23] rel] .
    have fresh: "(\<Union>r\<in>set args. returned_temporary s2 r) \<inter> dom (heap s) = {}"
      using ra returned_temporary_fresh [OF f2] by blast
    have live: "(\<Union>r\<in>set args. returned_temporary s2 r) \<subseteq> dom (heap s2)"
      using returned_temporary_live by blast
    have pn: "p \<notin> dom (heap s2)"
      using wf_state_fresh [OF frame_wf [OF f2], of p] p(2) by auto
    have e3': "(\<Union>r\<in>set args. returned_temporary s3 r) =
        (\<Union>r\<in>set args. returned_temporary s2 r)"
      using e3 by simp
    have dd: "dom (heap s') = dom (heap s) \<union> {p}"
      unfolding d4 e3' d3 using fresh live pn unfolding d2 by blast
    then have "heap s' p \<noteq> None" by auto
    have "Some p \<notin> set args"
    proof
      assume "Some p \<in> set args"
      with ra have "result_ok s s2 (Some p)" by blast
      from result_live [OF this] pn show False by auto
    qed
    moreover have "frame s s3" using frame_trans [OF f2 f23] .
    moreover have "\<forall>r\<in>set args. releasable s s3 r"
      using ra result_ok_later [OF _ f23] result_ok_releasable by blast
    ultimately have "heap s' p = heap s3 p"
      using release_args_frame [OF _ _ rel] by blast
    with tp have "temporary_at s' p" by (simp add: temporary_at_def)
    with dd p show "dom (heap s') = dom (heap s) \<union> returned_temporary s' r"
      by (simp add: returned_temporary_def)
  qed
next
  case (14 env c rest s)
  show ?case unfolding Process_args_balanced_def
  proof (intro impI allI)
    fix ps s'
    assume env: "wf_env env" and wf: "wf_state s"
      and lv: "\<forall>t\<in>set (c # rest). leaves_persistent s t"
      and nh: "\<forall>t\<in>set (c # rest). no_handoff t"
      and run: "Process_args env (c # rest) s = Inr (ps, s')"
    from run obtain p s1 qs where c: "Process env c s = Inr (p, s1)"
      and a: "Process_args env rest s1 = Inr (qs, s')" and ps: "ps = p # qs"
      by (auto split: sum.splits prod.splits)
    from Process_frame [OF env wf _ c] lv have f1: "frame s s1" and r1: "result_ok s s1 p"
      by auto
    have lv2: "\<forall>t\<in>set rest. leaves_persistent s1 t"
      using lv leaves_persistent_frame [OF _ f1] by simp
    from Process_args_frame [OF env frame_wf [OF f1] lv2 a] have f12: "frame s1 s'" by simp
    from 14(1) env wf lv nh c
    have d1: "dom (heap s1) = dom (heap s) \<union> returned_temporary s1 p"
      by (auto simp: Process_balanced_def)
    from 14(2) [OF c refl] env frame_wf [OF f1] lv2 nh a
    have d2: "dom (heap s') = dom (heap s1) \<union> (\<Union>r\<in>set qs. returned_temporary s' r)"
      by (auto simp: Process_args_balanced_def)
    have "returned_temporary s' p = returned_temporary s1 p"
      using returned_temporary_later [OF r1 f12] .
    then show "dom (heap s') = dom (heap s) \<union> (\<Union>r\<in>set ps. returned_temporary s' r)"
      unfolding d2 d1 ps by auto
  qed
next
  case (16 env node rest s)
  show ?case unfolding Process_statements_balanced_def
  proof (intro impI allI)
    fix s'
    assume env: "wf_env env" and wf: "wf_state s"
      and lv: "\<forall>t\<in>set (node # rest). leaves_persistent s t"
      and nh: "\<forall>t\<in>set (node # rest). no_handoff t"
      and run: "Process_statements env (node # rest) s = Inr s'"
    from run obtain out s1 s2 where c: "Process env node s = Inr (out, s1)"
      and rel: "(case out of None \<Rightarrow> Inr s1 | Some a \<Rightarrow> release_if_temporary out s1) = Inr s2"
      and a: "Process_statements env rest s2 = Inr s'"
      by (auto split: sum.splits prod.splits)
    from Process_frame [OF env wf _ c] lv have f1: "frame s s1" and r1: "result_ok s s1 out"
      by auto
    from 16(1) env wf lv nh c
    have d1: "dom (heap s1) = dom (heap s) \<union> returned_temporary s1 out"
      by (auto simp: Process_balanced_def)
    have f2: "frame s s2" and d2: "dom (heap s2) = dom (heap s)"
    proof -
      show "frame s s2"
      proof (cases out)
        case None
        with rel f1 show ?thesis by simp
      next
        case (Some p)
        with rel have "release_if_temporary out s1 = Inr s2" by simp
        from frame_release [OF f1 result_ok_releasable [OF r1] this] show ?thesis .
      qed
      show "dom (heap s2) = dom (heap s)"
      proof (cases out)
        case None
        with rel d1 show ?thesis by (simp add: returned_temporary_def)
      next
        case (Some p)
        with rel have "release_if_temporary out s1 = Inr s2" by simp
        show ?thesis
          unfolding release_dom [OF frame_wf [OF f1] \<open>release_if_temporary out s1 = Inr s2\<close>] d1
          using returned_temporary_fresh [OF f1 r1] by blast
      qed
    qed
    have lv2: "\<forall>t\<in>set rest. leaves_persistent s2 t"
      using lv leaves_persistent_frame [OF _ f2] by simp
    from 16(2) [OF c refl rel] env frame_wf [OF f2] lv2 nh a
    have "dom (heap s') = dom (heap s2)" by (auto simp: Process_statements_balanced_def)
    with d2 show "dom (heap s') = dom (heap s)" by simp
  qed
qed (simp_all add: Process_balanced_def Process_args_balanced_def
    Process_statements_balanced_def)

lemma Process_statements_step:
  assumes "wf_env env" and "wf_state s" and "leaves_persistent s c"
    and "Process env c s = Inr (out, s1)"
  shows "Process_statements env (c # rest) s =
         Process_statements env rest (case out of None \<Rightarrow> s1 | Some p \<Rightarrow> drop_temporary p s1)"
proof (cases out)
  case None
  with assms(4) show ?thesis by simp
next
  case (Some p)
  from Process_frame [OF assms] have f: "frame s s1" and r: "result_ok s s1 out" by auto
  from result_live [OF r [unfolded Some]] obtain sm where "heap s1 p = Some sm" by auto
  from release_drop [OF frame_wf [OF f] this] assms(4) Some show ?thesis by simp
qed

section \<open>No use after release\<close>

text \<open>
  A result of an evaluation is live, so reading it or releasing it can only fail on the
  null pointer.
\<close>

lemma deref_result:
  assumes "result_ok s0 s r" and "deref s r = Inl e"
  shows "e = NullDeref"
proof (cases r)
  case None
  with assms(2) show ?thesis by (simp add: deref_def)
next
  case (Some p)
  with result_live [OF assms(1) [unfolded Some]] assms(2) show ?thesis
    by (auto simp: deref_def split: option.splits)
qed

lemma release_live:
  assumes "wf_state s" and "r = None \<or> (\<exists>p sm. r = Some p \<and> heap s p = Some sm)"
    and "release_if_temporary r s = Inl e"
  shows "e = NullDeref"
proof (cases r)
  case None
  with assms(3) show ?thesis by (simp add: release_if_temporary_def)
next
  case (Some p)
  with assms(2) obtain sm where "heap s p = Some sm" by auto
  from release_drop [OF assms(1) this] assms(3) Some show ?thesis by simp
qed

lemma release_result:
  assumes "wf_state s" and "result_ok s0 s r" and "release_if_temporary r s = Inl e"
  shows "e = NullDeref"
proof -
  have "r = None \<or> (\<exists>p sm. r = Some p \<and> heap s p = Some sm)"
    using result_live [of s0 s] assms(2) by (cases r) auto
  from release_live [OF assms(1) this assms(3)] show ?thesis .
qed

lemma temporary_at_later:
  assumes "result_ok s0 s1 (Some p)" and "frame s1 s2"
  shows "temporary_at s2 p = temporary_at s1 p"
  using assms
  by (auto simp: result_ok_def frame_def persistent_def temporary_at_def split: option.splits)

lemma temporaries_later:
  "\<forall>r\<in>set ps. result_ok s0 s1 r \<Longrightarrow> frame s1 s2 \<Longrightarrow> temporaries s2 ps = temporaries s1 ps"
proof (induction ps)
  case Nil
  then show ?case by simp
next
  case (Cons r ps)
  then have IH: "temporaries s2 ps = temporaries s1 ps" by simp
  show ?case
  proof (cases r)
    case None
    with IH show ?thesis by simp
  next
    case (Some a)
    with Cons.prems have "result_ok s0 s1 (Some a)" by simp
    from temporary_at_later [OF this Cons.prems(2)] IH Some show ?thesis by simp
  qed
qed

lemma temporaries_set:
  "set (temporaries s ps) = {p. Some p \<in> set ps \<and> temporary_at s p}"
  by (induction s ps rule: temporaries.induct) auto

lemma Process_args_distinct:
  "wf_env env \<Longrightarrow> wf_state s \<Longrightarrow> \<forall>t\<in>set ts. leaves_persistent s t \<Longrightarrow>
   Process_args env ts s = Inr (ps, s') \<Longrightarrow> distinct (temporaries s' ps)"
proof (induction ts arbitrary: s ps)
  case Nil
  then show ?case by simp
next
  case (Cons c rest)
  from Cons.prems(4) obtain p s1 qs where c: "Process env c s = Inr (p, s1)"
    and a: "Process_args env rest s1 = Inr (qs, s')" and ps: "ps = p # qs"
    by (auto split: sum.splits prod.splits)
  from Process_frame [OF Cons.prems(1,2) _ c] Cons.prems(3)
  have f1: "frame s s1" and r1: "result_ok s s1 p" by auto
  have lv: "\<forall>t\<in>set rest. leaves_persistent s1 t"
    using Cons.prems(3) leaves_persistent_frame [OF _ f1] by simp
  from Process_args_frame [OF Cons.prems(1) frame_wf [OF f1] lv a]
  have f12: "frame s1 s'" and ra: "\<forall>r\<in>set qs. result_ok s1 s' r" by auto
  have d: "distinct (temporaries s' qs)"
    using Cons.IH [OF Cons.prems(1) frame_wf [OF f1] lv a] .
  show ?case
  proof (cases p)
    case None
    with d ps show ?thesis by simp
  next
    case (Some a0)
    have "a0 \<notin> set (temporaries s' qs)"
    proof
      assume "a0 \<in> set (temporaries s' qs)"
      then have in_qs: "Some a0 \<in> set qs" and t: "temporary_at s' a0"
        by (auto simp: temporaries_set)
      from ra in_qs have r2: "result_ok s1 s' (Some a0)" by blast
      from distinct_results [OF f1 r1 [unfolded Some] f12 r2] t show False by simp
    qed
    with d ps Some show ?thesis by simp
  qed
qed

lemma release_args_safe:
  "wf_state s \<Longrightarrow> \<forall>p. Some p \<in> set ps \<longrightarrow> heap s p \<noteq> None \<Longrightarrow>
   distinct (temporaries s ps) \<Longrightarrow> release_args ps s = Inl e \<Longrightarrow> e = NullDeref"
proof (induction ps arbitrary: s)
  case Nil
  then show ?case by simp
next
  case (Cons r ps)
  show ?case
  proof (cases "release_if_temporary r s")
    case (Inl e1)
    have "r = None \<or> (\<exists>p sm. r = Some p \<and> heap s p = Some sm)"
      using Cons.prems(2) by (cases r) auto
    from release_live [OF Cons.prems(1) this Inl] Inl Cons.prems(4) show ?thesis by simp
  next
    case (Inr s1)
    with Cons.prems(4) have rest: "release_args ps s1 = Inl e" by simp
    from Cons.prems(1) Inr show ?thesis
    proof (cases rule: release_if_temporary_cases)
      case (1 p sm)
      with Cons.prems have "distinct (temporaries s ps)"
        by (simp add: temporary_at_def)
      with Cons.IH [of s] Cons.prems(1,2) rest 1 show ?thesis by simp
    next
      case (2 p sm)
      have tp: "temporary_at s p" using 2 by (simp add: temporary_at_def)
      with Cons.prems(3) 2 have np: "p \<notin> set (temporaries s ps)"
        and d: "distinct (temporaries s ps)" by simp_all
      have notin: "Some p \<notin> set ps" using np tp by (simp add: temporaries_set)
      have same: "temporaries s1 ps = temporaries s ps"
        using notin unfolding 2(4)
      proof (induction ps)
        case Nil
        then show ?case by simp
      next
        case (Cons q qs)
        then show ?case by (cases q) (auto simp: temporary_at_def)
      qed
      have live: "\<forall>q. Some q \<in> set ps \<longrightarrow> heap s1 q \<noteq> None"
        using Cons.prems(2) notin unfolding 2(4) by auto
      have "wf_state s1" using release_wf [OF Cons.prems(1) Inr] .
      from Cons.IH [OF this live _ rest] same d show ?thesis by simp
    qed
  qed
qed

lemma Call_safe:
  assumes "result_ok s0 s fn" and "\<forall>r\<in>set args. result_ok s1 s r"
    and "Call env fn args s = Inl e"
  shows "\<not> ownership_error e"
proof -
  have all: "deref_all s args = Inl e' \<Longrightarrow> e' = NullDeref" for e'
    using assms(2)
  proof (induction args)
    case Nil
    then show ?case by simp
  next
    case (Cons r rs)
    then show ?case
      using deref_result [of s1 s r]
      by (auto split: sum.splits)
  qed
  from assms(3) show ?thesis
    using deref_result [OF assms(1)] all
    by (auto simp: Call_def ownership_error_def
        split: sum.splits content.splits option.splits prod.splits)
qed

text \<open>
  By induction on the evaluation: no node reads or releases a Symbol that has been
  released before.
\<close>

lemma Process_safe_all: "Process_safe env t s"
  and Process_args_safe_all: "Process_args_safe env ts s"
  and Process_statements_safe_all: "Process_statements_safe env ts s"
proof (induction env t s and env ts s and env ts s
    rule: Process_Process_args_Process_statements.induct)
  case (2 env scope_ptr children s)
  then show ?case
    by (auto simp: Process_safe_def Process_statements_safe_def leaves_persistent_children
        split: sum.splits)
next
  case (3 env nm f c s)
  show ?case unfolding Process_safe_def
  proof (intro impI allI notI)
    fix e
    assume env: "wf_env env" and wf: "wf_state s"
      and lv: "leaves_persistent s (ASTNode_Math1 nm f [c])"
      and run: "Process env (ASTNode_Math1 nm f [c]) s = Inl e" and oe: "ownership_error e"
    have lvc: "leaves_persistent s c" using lv by (simp add: leaves_persistent_children)
    show False
    proof (cases "Process env c s")
      case (Inl e1)
      with run have "e1 = e" by simp
      with 3 env wf lvc Inl oe show False by (simp add: Process_safe_def)
    next
      case (Inr res)
      obtain inp s1 where res: "res = (inp, s1)" by (cases res)
      from Process_frame [OF env wf lvc Inr [unfolded res]]
      have f1: "frame s s1" and r1: "result_ok s s1 inp" by auto
      from run Inr res have "e = NullDeref \<or> e = TypeMismatch"
        using deref_result [OF r1] release_result [OF frame_wf [OF f1] r1]
        by (auto split: sum.splits option.splits prod.splits)
      with oe show False by (auto simp: ownership_error_def)
    qed
  qed
next
  case (5 env nm T1 T2 f c1 c2 s)
  show ?case unfolding Process_safe_def
  proof (intro impI allI notI)
    fix e
    assume env: "wf_env env" and wf: "wf_state s"
      and lv: "leaves_persistent s (ASTNode_Op2 nm T1 T2 f [c1, c2])"
      and run: "Process env (ASTNode_Op2 nm T1 T2 f [c1, c2]) s = Inl e"
      and oe: "ownership_error e"
    have lv1: "leaves_persistent s c1" and lv2: "leaves_persistent s c2"
      using lv by (simp_all add: leaves_persistent_children)
    show False
    proof (cases "Process env c1 s")
      case (Inl e1)
      with run have "e1 = e" by simp
      with 5(1) env wf lv1 Inl oe show False by (simp add: Process_safe_def)
    next
      case (Inr res1)
      obtain in1 s1 where res1: "res1 = (in1, s1)" by (cases res1)
      note c1 = Inr [unfolded res1]
      from Process_frame [OF env wf lv1 c1]
      have f1: "frame s s1" and r1: "result_ok s s1 in1" by auto
      have lv2': "leaves_persistent s1 c2" using leaves_persistent_frame [OF lv2 f1] .
      show False
      proof (cases "Process env c2 s1")
        case (Inl e2)
        with run c1 have "e2 = e" by simp
        with 5(2) [OF c1 refl] env frame_wf [OF f1] lv2' Inl oe show False
          by (simp add: Process_safe_def)
      next
        case (Inr res2)
        obtain in2 s2 where res2: "res2 = (in2, s2)" by (cases res2)
        note c2 = Inr [unfolded res2]
        from Process_frame [OF env frame_wf [OF f1] lv2' c2]
        have f12: "frame s1 s2" and r2: "result_ok s1 s2 in2" by auto
        have r1': "result_ok s s2 in1" using result_ok_later [OF r1 f12] .
        have wf2: "wf_state s2" using frame_wf [OF f12] .
        have second: "e' = NullDeref"
          if rel1: "release_if_temporary in1 s2 = Inr s3"
            and rel2: "release_if_temporary in2 s3 = Inl e'" for s3 e'
        proof (cases in2)
          case None
          with rel2 show ?thesis by (simp add: release_if_temporary_def)
        next
          case (Some p2)
          from result_live [OF r2 [unfolded Some]] obtain sm2 where h2: "heap s2 p2 = Some sm2"
            by auto
          from wf2 rel1 have "heap s3 p2 = Some sm2"
          proof (cases rule: release_if_temporary_cases)
            case (1 p sm)
            with h2 show ?thesis by simp
          next
            case (2 p1 sm)
            have "temporary_at s2 p1" using 2 by (simp add: temporary_at_def)
            with distinct_results [OF f1 r1 [unfolded 2(1)] f12 r2 [unfolded Some]]
            have "p1 \<noteq> p2" by simp
            with 2 h2 show ?thesis by simp
          qed
          then have "in2 = None \<or> (\<exists>p sm. in2 = Some p \<and> heap s3 p = Some sm)"
            using Some by simp
          from release_live [OF release_wf [OF wf2 rel1] this rel2] show ?thesis .
        qed
        from run c1 c2 have "e = NullDeref \<or> e = TypeMismatch"
          using deref_result [OF r1'] deref_result [OF r2]
            release_result [OF wf2 r1'] second
          by (auto simp: As_def split: sum.splits option.splits prod.splits native_type.splits)
        with oe show False by (auto simp: ownership_error_def)
      qed
    qed
  qed
next
  case (7 env c1 c2 s)
  show ?case unfolding Process_safe_def
  proof (intro impI allI notI)
    fix e
    assume env: "wf_env env" and wf: "wf_state s"
      and lv: "leaves_persistent s (ASTNode_Assign [c1, c2])"
      and run: "Process env (ASTNode_Assign [c1, c2]) s = Inl e"
      and oe: "ownership_error e"
    have lv1: "leaves_persistent s c1" and lv2: "leaves_persistent s c2"
      using lv by (simp_all add: leaves_persistent_children)
    show False
    proof (cases "Process env c1 s")
      case (Inl e1)
      with run have "e1 = e" by simp
      with 7(1) env wf lv1 Inl oe show False by (simp add: Process_safe_def)
    next
      case (Inr res1)
      obtain lhs s1 where res1: "res1 = (lhs, s1)" by (cases res1)
      note c1 = Inr [unfolded res1]
      from Process_frame [OF env wf lv1 c1]
      have f1: "frame s s1" and r1: "result_ok s s1 lhs" by auto
      have lv2': "leaves_persistent s1 c2" using leaves_persistent_frame [OF lv2 f1] .
      show False
      proof (cases "Process env c2 s1")
        case (Inl e2)
        with run c1 have "e2 = e" by simp
        with 7(2) [OF c1 refl] env frame_wf [OF f1] lv2' Inl oe show False
          by (simp add: Process_safe_def)
      next
        case (Inr res2)
        obtain rhs s2 where res2: "res2 = (rhs, s2)" by (cases res2)
        note c2 = Inr [unfolded res2]
        from Process_frame [OF env frame_wf [OF f1] lv2' c2]
        have f12: "frame s1 s2" and r2: "result_ok s1 s2 rhs" by auto
        have r1': "result_ok s s2 lhs" using result_ok_later [OF r1 f12] .
        have wf2: "wf_state s2" using frame_wf [OF f12] .
        have third: "e' = NullDeref"
          if hl: "heap s2 l = Some lsm" and cp: "CopyValue env lsm rsm = Inr lsm'"
            and rel: "release_if_temporary rhs (s2\<lparr>heap := (heap s2)(l \<mapsto> lsm')\<rparr>) = Inl e'"
          for l lsm rsm lsm' e'
        proof -
          from CopyValue_flags [OF cp] have fl: "is_temporary lsm' = is_temporary lsm"
            and ns: "\<not> IsScope lsm'" by auto
          have wf3: "wf_state (s2\<lparr>heap := (heap s2)(l \<mapsto> lsm')\<rparr>)"
            using wf2 hl ns by (auto simp: wf_state_def)
          have "result_ok s1 (s2\<lparr>heap := (heap s2)(l \<mapsto> lsm')\<rparr>) rhs"
            using r2 result_ok_update [OF hl fl] by simp
          from release_result [OF wf3 this rel] show ?thesis .
        qed
        have live_l: "heap s2 l \<noteq> None" if "lhs = Some l" for l
          using result_live [OF r1' [unfolded that]] .
        from run c1 c2 have "e = NullDeref \<or> e = TypeMismatch"
          using deref_result [OF r2] third live_l
          by (auto simp: CopyValue_def
              split: sum.splits option.splits prod.splits content.splits)
        with oe show False by (auto simp: ownership_error_def)
      qed
    qed
  qed
next
  case (9 env c rest s)
  show ?case unfolding Process_safe_def
  proof (intro impI allI notI)
    fix e
    assume env: "wf_env env" and wf: "wf_state s"
      and lv: "leaves_persistent s (ASTNode_Call (c # rest))"
      and run: "Process env (ASTNode_Call (c # rest)) s = Inl e"
      and oe: "ownership_error e"
    have lvc: "leaves_persistent s c" and lvr: "\<forall>t\<in>set rest. leaves_persistent s t"
      using lv by (simp_all add: leaves_persistent_children)
    show False
    proof (cases "Process env c s")
      case (Inl e1)
      with run have "e1 = e" by simp
      with 9(1) env wf lvc Inl oe show False by (simp add: Process_safe_def)
    next
      case (Inr res1)
      obtain fn s1 where res1: "res1 = (fn, s1)" by (cases res1)
      note c = Inr [unfolded res1]
      from Process_frame [OF env wf lvc c]
      have f1: "frame s s1" and r1: "result_ok s s1 fn" by auto
      have lv1: "\<forall>t\<in>set rest. leaves_persistent s1 t"
        using lvr leaves_persistent_frame [OF _ f1] by blast
      show False
      proof (cases "Process_args env rest s1")
        case (Inl e2)
        with run c have "e2 = e" by simp
        with 9(2) [OF c refl] env frame_wf [OF f1] lv1 Inl oe show False
          by (simp add: Process_args_safe_def)
      next
        case (Inr res2)
        obtain args s2 where res2: "res2 = (args, s2)" by (cases res2)
        note a = Inr [unfolded res2]
        from Process_args_frame [OF env frame_wf [OF f1] lv1 a]
        have f12: "frame s1 s2" and ra: "\<forall>r\<in>set args. result_ok s1 s2 r" by auto
        have rfn: "result_ok s s2 fn" using result_ok_later [OF r1 f12] .
        have dist: "distinct (temporaries s2 args)"
          using Process_args_distinct [OF env frame_wf [OF f1] lv1 a] .
        show False
        proof (cases "Call env fn args s2")
          case (Inl e3)
          with run c a have "e3 = e" by simp
          with Call_safe [OF rfn ra Inl] oe show False by simp
        next
          case (Inr res3)
          obtain r s3 where res3: "res3 = (r, s3)" by (cases res3)
          note call = Inr [unfolded res3]
          from Call_result [OF env frame_wf [OF f12] call] have f23: "frame s2 s3" by simp
          have live: "\<forall>p. Some p \<in> set args \<longrightarrow> heap s3 p \<noteq> None"
            using ra result_ok_later [OF _ f23] result_live by blast
          have d3: "distinct (temporaries s3 args)"
            using dist temporaries_later [OF ra f23] by simp
          from run c a call have "release_args args s3 = Inl e"
            by (auto split: sum.splits)
          from release_args_safe [OF frame_wf [OF f23] live d3 this] oe show False
            by (simp add: ownership_error_def)
        qed
      qed
    qed
  qed
next
  case (11 env nm k action rest s)
  then show ?case
    by (auto simp: Process_safe_def Process_args_safe_def leaves_persistent_children
        split: sum.splits prod.splits)
next
  case (14 env c rest s)
  show ?case unfolding Process_args_safe_def
  proof (intro impI allI notI)
    fix e
    assume env: "wf_env env" and wf: "wf_state s"
      and lv: "\<forall>t\<in>set (c # rest). leaves_persistent s t"
      and run: "Process_args env (c # rest) s = Inl e" and oe: "ownership_error e"
    show False
    proof (cases "Process env c s")
      case (Inl e1)
      with run have "e1 = e" by simp
      with 14(1) env wf lv Inl oe show False by (simp add: Process_safe_def)
    next
      case (Inr res1)
      obtain p s1 where res1: "res1 = (p, s1)" by (cases res1)
      note c = Inr [unfolded res1]
      from Process_frame [OF env wf _ c] lv have f1: "frame s s1" by auto
      have lv1: "\<forall>t\<in>set rest. leaves_persistent s1 t"
        using lv leaves_persistent_frame [OF _ f1] by simp
      from run c have "Process_args env rest s1 = Inl e"
        by (auto split: sum.splits prod.splits)
      with 14(2) [OF c refl] env frame_wf [OF f1] lv1 oe show False
        by (simp add: Process_args_safe_def)
    qed
  qed
next
  case (16 env node rest s)
  show ?case unfolding Process_statements_safe_def
  proof (intro impI allI notI)
    fix e
    assume env: "wf_env env" and wf: "wf_state s"
      and lv: "\<forall>t\<in>set (node # rest). leaves_persistent s t"
      and run: "Process_statements env (node # rest) s = Inl e" and oe: "ownership_error e"
    show False
    proof (cases "Process env node s")
      case (Inl e1)
      with run have "e1 = e" by simp
      with 16(1) env wf lv Inl oe show False by (simp add: Process_safe_def)
    next
      case (Inr res1)
      obtain out s1 where res1: "res1 = (out, s1)" by (cases res1)
      note c = Inr [unfolded res1]
      from Process_frame [OF env wf _ c] lv
      have f1: "frame s s1" and r1: "result_ok s s1 out" by auto
      show False
      proof (cases "case out of None \<Rightarrow> Inr s1 | Some a \<Rightarrow> release_if_temporary out s1")
        case (Inl e2)
        then have "release_if_temporary out s1 = Inl e2" by (cases out) simp_all
        from release_result [OF frame_wf [OF f1] r1 this] have "e2 = NullDeref" .
        moreover from run c Inl have "e = e2" by simp
        ultimately show False using oe by (simp add: ownership_error_def)
      next
        case (Inr s2)
        have f2: "frame s s2"
        proof (cases out)
          case None
          with Inr f1 show ?thesis by simp
        next
          case (Some p)
          with Inr have "release_if_temporary out s1 = Inr s2" by simp
          from frame_release [OF f1 result_ok_releasable [OF r1] this] show ?thesis .
        qed
        have lv2: "\<forall>t\<in>set rest. leaves_persistent s2 t"
          using lv leaves_persistent_frame [OF _ f2] by simp
        from run c Inr have "Process_statements env rest s2 = Inl e" by simp
        with 16(2) [OF c refl Inr] env frame_wf [OF f2] lv2 oe show False
          by (simp add: Process_statements_safe_def)
      qed
    qed
  qed
qed (simp_all add: Process_safe_def Process_args_safe_def Process_statements_safe_def
    ownership_error_def)

text \<open>
  The consumers Math1 and Call, step by step: the input is read before it is released,
  and the cleanup of a Call releases each temporary argument result.
\<close>

lemma temporaries_drop:
  "Some p \<notin> set ps \<Longrightarrow> temporaries (drop_temporary p s) ps = temporaries s ps"
proof (induction ps)
  case Nil
  then show ?case by simp
next
  case (Cons q qs)
  then show ?case by (cases q) (auto simp: temporary_at_def drop_temporary_def)
qed

lemma release_args_drop:
  "wf_state s \<Longrightarrow> \<forall>r\<in>set ps. \<exists>p. r = Some p \<and> heap s p \<noteq> None \<Longrightarrow>
   distinct (temporaries s ps) \<Longrightarrow> release_args ps s = Inr (drop_temporaries ps s)"
proof (induction ps arbitrary: s)
  case Nil
  then show ?case by simp
next
  case (Cons r ps)
  from Cons.prems(2) obtain p sm where r: "r = Some p" and h: "heap s p = Some sm" by auto
  have rel: "release_if_temporary r s = Inr (drop_temporary p s)"
    using release_drop [OF Cons.prems(1) h] r by simp
  have wf1: "wf_state (drop_temporary p s)" using wf_state_drop [OF Cons.prems(1)] .
  show ?case
  proof (cases "temporary_at s p")
    case True
    with Cons.prems(3) r have np: "p \<notin> set (temporaries s ps)"
      and d: "distinct (temporaries s ps)" by simp_all
    have notin: "Some p \<notin> set ps" using np True by (simp add: temporaries_set)
    have live: "\<forall>r\<in>set ps. \<exists>q. r = Some q \<and> heap (drop_temporary p s) q \<noteq> None"
    proof
      fix r0 assume r0: "r0 \<in> set ps"
      with Cons.prems(2) obtain q where q: "r0 = Some q" "heap s q \<noteq> None" by auto
      from r0 q notin have "q \<noteq> p" by auto
      with q show "\<exists>q. r0 = Some q \<and> heap (drop_temporary p s) q \<noteq> None"
        by (simp add: drop_temporary_def)
    qed
    have "distinct (temporaries (drop_temporary p s) ps)"
      using d temporaries_drop [OF notin, of s] by simp
    from Cons.IH [OF wf1 live this] rel r show ?thesis by simp
  next
    case False
    then have same: "drop_temporary p s = s" by (simp add: drop_temporary_def)
    have "distinct (temporaries s ps)" using Cons.prems(3) r False by simp
    from Cons.IH [OF Cons.prems(1) _ this] Cons.prems(2) rel r same show ?thesis by simp
  qed
qed

lemma deref_all_live:
  "deref_all s ps = Inr sms \<Longrightarrow> \<forall>r\<in>set ps. \<exists>p. r = Some p \<and> heap s p \<noteq> None"
  by (induction ps arbitrary: sms)
    (auto simp: deref_def split: sum.splits option.splits)

lemma Math1_step:
  assumes "wf_env env" and "wf_state s" and "leaves_persistent s c"
    and "Process env c s = Inr (Some p, s1)" and "heap s1 p = Some sm"
    and "AsDouble env sm = Some d"
  shows "Process env (ASTNode_Math1 nm f [c]) s =
         Inr (Some (next_addr s1), snd (MakeTempSymbol (NDouble (f d)) (drop_temporary p s1)))"
proof -
  from Process_frame [OF assms(1-4)] have f1: "frame s s1" by simp
  have rel: "release_if_temporary (Some p) s1 = Inr (drop_temporary p s1)"
    using release_drop [OF frame_wf [OF f1] assms(5)] .
  have "next_addr (drop_temporary p s1) = next_addr s1" by (simp add: drop_temporary_def)
  then show ?thesis
    using assms(4-6) rel by (simp add: deref_def MakeTempSymbol_def NewPtr_def)
qed

lemma Call_step:
  assumes "wf_env env" and "wf_state s" and "leaves_persistent s (ASTNode_Call (c # rest))"
    and "Process env c s = Inr (fn, s1)" and "evaluated_in_order env rest s1 args s2"
    and "Call env fn args s2 = Inr (r, s3)"
  shows "Process env (ASTNode_Call (c # rest)) s = Inr (r, drop_temporaries args s3)"
proof -
  have lvc: "leaves_persistent s c" and lvr: "\<forall>t\<in>set rest. leaves_persistent s t"
    using assms(3) by (simp_all add: leaves_persistent_children)
  from Process_frame [OF assms(1,2) lvc assms(4)] have f1: "frame s s1" by simp
  have lv1: "\<forall>t\<in>set rest. leaves_persistent s1 t"
    using lvr leaves_persistent_frame [OF _ f1] by blast
  have a: "Process_args env rest s1 = Inr (args, s2)"
    using assms(5) by (simp add: Process_args_in_order)
  from Process_args_frame [OF assms(1) frame_wf [OF f1] lv1 a]
  have f12: "frame s1 s2" and ra: "\<forall>r\<in>set args. result_ok s1 s2 r" by auto
  from Call_result [OF assms(1) frame_wf [OF f12] assms(6)] have f23: "frame s2 s3" by simp
  from assms(6) obtain sms where "deref_all s2 args = Inr sms"
    by (auto simp: Call_def split: sum.splits content.splits option.splits)
  from deref_all_live [OF this]
  have some: "\<forall>r\<in>set args. \<exists>p. r = Some p \<and> heap s2 p \<noteq> None" .
  have live: "\<forall>r\<in>set args. \<exists>p. r = Some p \<and> heap s3 p \<noteq> None"
  proof
    fix r0 assume r0: "r0 \<in> set args"
    with some obtain p where p: "r0 = Some p" by blast
    from ra r0 p have "result_ok s1 s2 (Some p)" by blast
    from result_live [OF result_ok_later [OF this f23]] p
    show "\<exists>p. r0 = Some p \<and> heap s3 p \<noteq> None" by simp
  qed
  have "distinct (temporaries s3 args)"
    using Process_args_distinct [OF assms(1) frame_wf [OF f1] lv1 a]
      temporaries_later [OF ra f23] by simp
  from release_args_drop [OF frame_wf [OF f23] live this] assms(4,6) a
  show ?thesis by simp
qed

section \<open>Cloning a scope\<close>

text \<open>
  C1. \<open>Clone\<close> of a scope is meant to return a deep copy: a table holding a clone of every
  entry, and the same host-object handle. The copy constructor copies the base part only
  and then ranges over the table of the new object, which is empty. On the scope S of
  \<open>wrapped_state\<close>, which declares X and wraps the host object 7, the clone is a scope
  with an empty table and a null handle, whatever the fuel.
\<close>

theorem Clone_loses_entries:
  "Clone (Suc n) 0 wrapped_state =
     Inr (2, wrapped_state
       \<lparr>heap := (heap wrapped_state)(2 \<mapsto>
          \<lparr>name = ''S'', desc = [], scope = None, is_temporary = False, is_builtin = False,
           content = Scope [] None False\<rparr>),
        next_addr := 3\<rparr>) \<and>
   map_option symbol_table (heap wrapped_state 0) = Some [(''X'', 1)] \<and>
   map_option obj_ptr (heap wrapped_state 0) = Some (Some 7)"
  by (simp add: wrapped_state_def Symbol_Scope_def NewPtr_def Symbol_copy_def)

section \<open>The ownership discipline, node by node\<close>

text \<open>
  C2, as stated, fails at an Event node: the result of an argument child is a fresh
  temporary, the node does not release it and does not return it; it passes it to the
  host's setup closure. After \<^verbatim>\<open>@OnUpdate(10 + 10) DoThing();\<close> the temporary 20 is
  still in the store and the node has returned no Symbol.
\<close>

theorem Event_keeps_argument:
  "Process strict_env event_of_sum event_state =
     Inr (None,
          event_state\<lparr>heap := (heap event_state)(3 \<mapsto> new_temporary (DoubleVar 20)),
                      next_addr := 4,
                      host := [(0, ASTNode_Call [ASTNode_Leaf 1 False], [Some 3])]\<rparr>) \<and>
   heap event_state 3 = None \<and>
   temporary_at
     (event_state\<lparr>heap := (heap event_state)(3 \<mapsto> new_temporary (DoubleVar 20)),
                 next_addr := 4,
                 host := [(0, ASTNode_Call [ASTNode_Leaf 1 False], [Some 3])]\<rparr>) 3"
  by (simp add: event_of_sum_def event_state_def temporary_at_def example_defs eval_defs)

text \<open>
  C2, amended. From a well-formed store, with host functions that return no scope, on a
  tree whose leaves hold persistent Symbols, \<open>Process\<close> of every node kind never reads or
  releases a Symbol that has been released before: no temporary is released twice, and
  none is released before its last use. It keeps each persistent Symbol live and
  persistent, leaves every temporary that existed before untouched, and returns no
  Symbol, a persistent Symbol or a temporary allocated during the evaluation. On a tree
  without handoff the live objects afterwards are exactly those from before and the
  returned temporary: every other temporary result has been released by the node that
  consumed it. The two consumers of the claim, step by step: a Math1 node evaluates its
  child, reads the number of the result, then releases the result if it is temporary,
  and returns a fresh temporary; a Call node evaluates the callee, then the arguments
  from the left, applies the function, then releases each argument result that is
  temporary, and returns the result of the function.
\<close>

theorem Process_ownership:
  assumes "wf_env env" and "wf_state s" and "leaves_persistent s t"
  shows "Process env t s \<noteq> Inl DanglingPtr \<and> Process env t s \<noteq> Inl OutOfFuel \<and>
         (Process env t s = Inr (r, s') \<longrightarrow>
            (\<forall>a. persistent s a \<longrightarrow> persistent s' a) \<and>
            (\<forall>a sm. heap s a = Some sm \<and> is_temporary sm \<longrightarrow> heap s' a = Some sm) \<and>
            result_ok s s' r \<and>
            (no_handoff t \<longrightarrow> dom (heap s') = dom (heap s) \<union> returned_temporary s' r)) \<and>
         (t = ASTNode_Math1 nm f [c] \<and> Process env c s = Inr (Some p, s1) \<and>
          heap s1 p = Some sm \<and> AsDouble env sm = Some d \<longrightarrow>
            Process env t s =
              Inr (Some (next_addr s1),
                   snd (MakeTempSymbol (NDouble (f d)) (drop_temporary p s1)))) \<and>
         (t = ASTNode_Call (c # rest) \<and> Process env c s = Inr (fn, s1) \<and>
          evaluated_in_order env rest s1 args s2 \<and> Call env fn args s2 = Inr (r, s3) \<longrightarrow>
            Process env t s = Inr (r, drop_temporaries args s3))"
proof -
  have safe: "Process env t s \<noteq> Inl DanglingPtr \<and> Process env t s \<noteq> Inl OutOfFuel"
    using Process_safe_all [of env t s] assms
    by (auto simp: Process_safe_def ownership_error_def)
  have own: "Process env t s = Inr (r, s') \<longrightarrow>
            (\<forall>a. persistent s a \<longrightarrow> persistent s' a) \<and>
            (\<forall>a sm. heap s a = Some sm \<and> is_temporary sm \<longrightarrow> heap s' a = Some sm) \<and>
            result_ok s s' r \<and>
            (no_handoff t \<longrightarrow> dom (heap s') = dom (heap s) \<union> returned_temporary s' r)"
  proof
    assume run: "Process env t s = Inr (r, s')"
    from Process_frame [OF assms run] Process_balanced_all [of env t s] assms run
    show "(\<forall>a. persistent s a \<longrightarrow> persistent s' a) \<and>
            (\<forall>a sm. heap s a = Some sm \<and> is_temporary sm \<longrightarrow> heap s' a = Some sm) \<and>
            result_ok s s' r \<and>
            (no_handoff t \<longrightarrow> dom (heap s') = dom (heap s) \<union> returned_temporary s' r)"
      by (simp add: frame_def Process_balanced_def)
  qed
  have m: "t = ASTNode_Math1 nm f [c] \<and> Process env c s = Inr (Some p, s1) \<and>
          heap s1 p = Some sm \<and> AsDouble env sm = Some d \<longrightarrow>
            Process env t s =
              Inr (Some (next_addr s1),
                   snd (MakeTempSymbol (NDouble (f d)) (drop_temporary p s1)))"
  proof (intro impI, elim conjE)
    assume t: "t = ASTNode_Math1 nm f [c]" and c: "Process env c s = Inr (Some p, s1)"
      and h: "heap s1 p = Some sm" and d: "AsDouble env sm = Some d"
    have "leaves_persistent s c" using assms(3) t by (simp add: leaves_persistent_children)
    from Math1_step [OF assms(1,2) this c h d] t
    show "Process env t s =
              Inr (Some (next_addr s1),
                   snd (MakeTempSymbol (NDouble (f d)) (drop_temporary p s1)))"
      by simp
  qed
  have k: "t = ASTNode_Call (c # rest) \<and> Process env c s = Inr (fn, s1) \<and>
          evaluated_in_order env rest s1 args s2 \<and> Call env fn args s2 = Inr (r, s3) \<longrightarrow>
            Process env t s = Inr (r, drop_temporaries args s3)"
  proof (intro impI, elim conjE)
    assume t: "t = ASTNode_Call (c # rest)" and c: "Process env c s = Inr (fn, s1)"
      and a: "evaluated_in_order env rest s1 args s2"
      and call: "Call env fn args s2 = Inr (r, s3)"
    from Call_step [OF assms(1,2) assms(3) [unfolded t] c a call] t
    show "Process env t s = Inr (r, drop_temporaries args s3)" by simp
  qed
  show ?thesis using safe own m k by blast
qed

theorem Process_ownership_witness:
  "wf_env strict_env \<and> wf_state call_state \<and>
   leaves_persistent call_state id_of_minus_sum \<and> no_handoff id_of_minus_sum \<and>
   Process strict_env three_plus_four call_state = Inr (Some 5, call_state1) \<and>
   heap call_state1 5 = Some (new_temporary (DoubleVar 7)) \<and>
   Process strict_env minus_sum call_state = Inr (Some 6, call_state2) \<and>
   heap call_state2 5 = None \<and>
   heap call_state2 6 = Some (new_temporary (DoubleVar (- 7))) \<and>
   Call strict_env (Some 1) [Some 6] call_state2 = Inr (Some 7, call_state3) \<and>
   heap call_state3 6 = Some (new_temporary (DoubleVar (- 7))) \<and>
   Process strict_env id_of_minus_sum call_state = Inr (Some 7, call_state_after) \<and>
   Process strict_env id_of_minus_sum call_state \<noteq> Inl DanglingPtr \<and>
   heap call_state_after 5 = None \<and> heap call_state_after 6 = None \<and>
   heap call_state_after 7 = Some (new_temporary (DoubleVar (- 7))) \<and>
   persistent call_state 2 \<and> persistent call_state_after 2 \<and>
   heap call_state 4 = Some (new_temporary (StringVar ''pending'')) \<and>
   heap call_state_after 4 = Some (new_temporary (StringVar ''pending'')) \<and>
   result_ok call_state call_state_after (Some 7) \<and>
   returned_temporary call_state_after (Some 7) = {7} \<and>
   dom (heap call_state_after) = dom (heap call_state) \<union> {7}"
proof -
  have e: "wf_env strict_env" by (rule wf_strict_env)
  have w: "wf_state call_state"
    by (auto simp: wf_state_def call_state_def Symbol_DoubleVar_def Symbol_Function_def
        Symbol_Scope_def new_temporary_def IsScope_def split: if_splits)
  have l: "leaves_persistent call_state id_of_minus_sum"
    "leaves_persistent call_state minus_sum"
    by (simp_all add: leaves_persistent_def persistent_def call_state_def id_of_minus_sum_def
        minus_sum_def three_plus_four_def Symbol_DoubleVar_def Symbol_Function_def)
  have n: "no_handoff id_of_minus_sum"
    by (simp add: id_of_minus_sum_def minus_sum_def three_plus_four_def)
  have p0: "Process strict_env (ASTNode_Leaf 1 False) call_state = Inr (Some 1, call_state)"
    by simp
  have p1: "Process strict_env three_plus_four call_state = Inr (Some 5, call_state1)"
    by (simp add: three_plus_four_def call_state_def call_state1_def example_defs eval_defs)
  have h1: "heap call_state1 5 = Some (new_temporary (DoubleVar 7))"
    by (simp add: call_state1_def)
  have d1: "AsDouble strict_env (new_temporary (DoubleVar 7)) = Some 7"
    by (simp add: strict_env_def new_temporary_def)
  have s2: "snd (MakeTempSymbol (NDouble (- 7)) (drop_temporary 5 call_state1)) = call_state2"
    "next_addr call_state1 = 6"
    by (simp_all add: MakeTempSymbol_def NewPtr_def drop_temporary_def temporary_at_def
        call_state_def call_state1_def call_state2_def new_temporary_def)
  have c: "Call strict_env (Some 1) [Some 6] call_state2 = Inr (Some 7, call_state3)"
    by (simp add: call_state_def call_state2_def call_state3_def example_defs eval_defs)
  have s3: "drop_temporaries [Some 6] call_state3 = call_state_after"
    by (simp add: drop_temporary_def temporary_at_def call_state_def call_state2_def
        call_state3_def call_state_after_def new_temporary_def)
  have f: "heap call_state2 5 = None"
    "heap call_state2 6 = Some (new_temporary (DoubleVar (- 7)))"
    "heap call_state3 6 = Some (new_temporary (DoubleVar (- 7)))"
    "heap call_state_after 5 = None" "heap call_state_after 6 = None"
    "heap call_state_after 7 = Some (new_temporary (DoubleVar (- 7)))"
    "persistent call_state 2"
    "heap call_state 4 = Some (new_temporary (StringVar ''pending''))"
    "is_temporary (new_temporary (StringVar ''pending''))"
    "returned_temporary call_state_after (Some 7) = {7}"
    by (simp_all add: persistent_def returned_temporary_def temporary_at_def call_state_def
        call_state2_def call_state3_def call_state_after_def Symbol_DoubleVar_def
        new_temporary_def)
  have m: "minus_sum = ASTNode_Math1 ''-'' uminus [three_plus_four] \<and>
      Process strict_env three_plus_four call_state = Inr (Some 5, call_state1) \<and>
      heap call_state1 5 = Some (new_temporary (DoubleVar 7)) \<and>
      AsDouble strict_env (new_temporary (DoubleVar 7)) = Some 7"
    using p1 h1 d1 by (simp add: minus_sum_def)
  note math = Process_ownership [OF e w l(2), THEN conjunct2, THEN conjunct2, THEN conjunct2,
      THEN conjunct1, rule_format, OF m, unfolded s2]
  have o: "evaluated_in_order strict_env [minus_sum] call_state [Some 6] call_state2"
    using math by simp
  have k: "id_of_minus_sum = ASTNode_Call [ASTNode_Leaf 1 False, minus_sum] \<and>
      Process strict_env (ASTNode_Leaf 1 False) call_state = Inr (Some 1, call_state) \<and>
      evaluated_in_order strict_env [minus_sum] call_state [Some 6] call_state2 \<and>
      Call strict_env (Some 1) [Some 6] call_state2 = Inr (Some 7, call_state3)"
    using p0 o c by (simp add: id_of_minus_sum_def del: Process.simps)
  note call = Process_ownership [OF e w l(1), THEN conjunct2, THEN conjunct2, THEN conjunct2,
      THEN conjunct2, rule_format, OF k, unfolded s3]
  note inst = Process_ownership [OF e w l(1), where r = "Some 7" and s' = call_state_after]
  show ?thesis
    using e w l n p1 h1 math c call f inst by (simp del: Process.simps)
qed

section \<open>Events\<close>

text \<open>
  C3. \<open>Process\<close> of an Event node runs \<open>Process\<close> on every child after the first, from
  the left: on the first of them in the store the node starts from, on each later one in
  the store its left neighbour has left, one argument Symbol each. If all of them return,
  the node applies the setup closure once, to the action node as it stands and to those
  Symbols in the order of the children, and returns no Symbol; the store is the one the
  last argument has left, with the host's part updated by the closure. If the node
  returns, every argument child has been evaluated in this way, and if \<open>Process\<close> of the
  first argument child fails, so does the node. Nothing is assumed of the action: its
  subtree is not evaluated, so the result is the same whether or not \<open>Process\<close> of the
  action would return.
\<close>

theorem Event_Process:
  "(evaluated_in_order env rest s args s1 \<longrightarrow>
      Process env (ASTNode_Event nm k (action # rest)) s =
        Inr (None, s1\<lparr>host := setup_table env k action args (host s1)\<rparr>) \<and>
      length args = length rest) \<and>
   (Process env (ASTNode_Event nm k (action # rest)) s = Inr (r, s') \<longrightarrow>
      r = None \<and>
      (\<exists>args s1. evaluated_in_order env rest s args s1 \<and>
         s' = s1\<lparr>host := setup_table env k action args (host s1)\<rparr>)) \<and>
   (Process env c s = Inr (p, s0) \<and> evaluated_in_order env rest s0 args s1 \<longrightarrow>
      Process env (ASTNode_Event nm k (action # c # rest)) s =
        Inr (None, s1\<lparr>host := setup_table env k action (p # args) (host s1)\<rparr>)) \<and>
   (Process env c s = Inl e \<longrightarrow>
      Process env (ASTNode_Event nm k (action # c # rest)) s = Inl e)"
proof (intro conjI impI)
  assume a: "evaluated_in_order env rest s args s1"
  then have pa: "Process_args env rest s = Inr (args, s1)"
    by (simp add: Process_args_in_order)
  then show "Process env (ASTNode_Event nm k (action # rest)) s =
        Inr (None, s1\<lparr>host := setup_table env k action args (host s1)\<rparr>)"
    by simp
  from Process_args_length [OF pa] show "length args = length rest" .
next
  assume run: "Process env (ASTNode_Event nm k (action # rest)) s = Inr (r, s')"
  then show "r = None" by (auto split: sum.splits)
  from run obtain args s1 where "Process_args env rest s = Inr (args, s1)"
    and "s' = s1\<lparr>host := setup_table env k action args (host s1)\<rparr>"
    by (auto split: sum.splits)
  then show "\<exists>args s1. evaluated_in_order env rest s args s1 \<and>
         s' = s1\<lparr>host := setup_table env k action args (host s1)\<rparr>"
    using Process_args_in_order by blast
next
  assume a: "Process env c s = Inr (p, s0) \<and> evaluated_in_order env rest s0 args s1"
  then have "Process_args env rest s0 = Inr (args, s1)"
    by (simp add: Process_args_in_order)
  with a show "Process env (ASTNode_Event nm k (action # c # rest)) s =
        Inr (None, s1\<lparr>host := setup_table env k action (p # args) (host s1)\<rparr>)"
    by simp
next
  assume "Process env c s = Inl e"
  then show "Process env (ASTNode_Event nm k (action # c # rest)) s = Inl e" by simp
qed

text \<open>
  \<^verbatim>\<open>@OnUpdate(10) DoThing();\<close> with a logging setup closure: the log receives one entry,
  the call node of DoThing and the Symbol of the literal 10. The store is unchanged, so
  DoThing was not called: evaluating the call node allocates its result, the number 42.
  With the two arguments \<^verbatim>\<open>10 + 10\<close> and \<^verbatim>\<open>-10\<close> the sum is allocated first, at address 3,
  and the negation after it, at address 4; the action of this event is a call node whose
  evaluation fails, and the event is declared all the same. With the failing node as the
  first argument the event fails.
\<close>

theorem Event_Process_witness:
  "Process strict_env (ASTNode_Leaf 2 True) event_state = Inr (Some 2, event_state) \<and>
   Process strict_env
     (ASTNode_Event ''OnUpdate'' 0 [ASTNode_Call [ASTNode_Leaf 1 False], ASTNode_Leaf 2 True])
     event_state =
     Inr (None, event_state\<lparr>host := [(0, ASTNode_Call [ASTNode_Leaf 1 False], [Some 2])]\<rparr>) \<and>
   map_option (AsDouble strict_env) (heap event_state 2) = Some (Some 10) \<and>
   Process strict_env (ASTNode_Call [ASTNode_Leaf 1 False]) event_state =
     Inr (Some 3, event_state\<lparr>heap := (heap event_state)(3 \<mapsto> new_temporary (DoubleVar 42)),
                             next_addr := 4\<rparr>) \<and>
   Process strict_env (ASTNode_Call []) event_state = Inl AssertFail \<and>
   Process strict_env ten_plus_ten event_state = Inr (Some 3, event_state1) \<and>
   Process strict_env minus_ten event_state1 = Inr (Some 4, event_state2) \<and>
   Process strict_env (ASTNode_Event ''OnUpdate'' 0 [ASTNode_Call [], ten_plus_ten, minus_ten])
     event_state =
     Inr (None, event_state2\<lparr>host := [(0, ASTNode_Call [], [Some 3, Some 4])]\<rparr>) \<and>
   Process strict_env (ASTNode_Event ''OnUpdate'' 0 [ten_plus_ten, ASTNode_Call [], minus_ten])
     event_state = Inl AssertFail"
proof -
  have a: "Process strict_env (ASTNode_Leaf 2 True) event_state = Inr (Some 2, event_state)"
    by simp
  have v: "map_option (AsDouble strict_env) (heap event_state 2) = Some (Some 10)"
    by (simp add: strict_env_def event_state_def Symbol_DoubleVar_def)
  have c: "Process strict_env (ASTNode_Call [ASTNode_Leaf 1 False]) event_state =
     Inr (Some 3, event_state\<lparr>heap := (heap event_state)(3 \<mapsto> new_temporary (DoubleVar 42)),
                             next_addr := 4\<rparr>)"
    by (simp add: event_state_def example_defs eval_defs)
  have f: "Process strict_env (ASTNode_Call []) event_state = Inl AssertFail" by simp
  have p1: "Process strict_env ten_plus_ten event_state = Inr (Some 3, event_state1)"
    by (simp add: ten_plus_ten_def event_state1_def event_state_def example_defs eval_defs)
  have p2: "Process strict_env minus_ten event_state1 = Inr (Some 4, event_state2)"
    by (simp add: minus_ten_def event_state2_def event_state1_def event_state_def
        example_defs eval_defs)
  have h: "host event_state = []" "host event_state2 = []"
    by (simp_all add: event_state_def event_state1_def event_state2_def)
  have k: "setup_table strict_env 0 act args [] = [(0, act, args)]" for act args
    by (simp add: strict_env_def)
  have o1: "evaluated_in_order strict_env [] event_state [] event_state" by simp
  have o2: "evaluated_in_order strict_env [minus_ten] event_state1 [Some 4] event_state2"
    using p2 by simp
  note one = Event_Process [where env = strict_env and s = event_state
      and c = "ASTNode_Leaf 2 True" and p = "Some 2" and ?s0.0 = event_state and rest = "[]"
      and args = "[]" and ?s1.0 = event_state and nm = "''OnUpdate''" and k = 0
      and action = "ASTNode_Call [ASTNode_Leaf 1 False]", THEN conjunct2, THEN conjunct2,
      THEN conjunct1, rule_format, OF conjI, OF a o1, unfolded h k]
  note two = Event_Process [where env = strict_env and s = event_state
      and c = ten_plus_ten and p = "Some 3" and ?s0.0 = event_state1 and rest = "[minus_ten]"
      and args = "[Some 4]" and ?s1.0 = event_state2 and nm = "''OnUpdate''" and k = 0
      and action = "ASTNode_Call []", THEN conjunct2, THEN conjunct2,
      THEN conjunct1, rule_format, OF conjI, OF p1 o2, unfolded h k]
  note fail = Event_Process [where env = strict_env and s = event_state
      and c = "ASTNode_Call []" and e = AssertFail and rest = "[minus_ten]"
      and nm = "''OnUpdate''" and k = 0
      and action = ten_plus_ten, THEN conjunct2, THEN conjunct2,
      THEN conjunct2, rule_format, OF f]
  show ?thesis
    using a v c f p1 p2 one two fail by (simp del: Process.simps)
qed
section \<open>Assignment\<close>

text \<open>
  C4. \<open>Process\<close> of an Assign node whose left child yields a persistent Symbol evaluates
  the left child, then the right child, overwrites the value of the left Symbol by
  \<open>CopyValue\<close> from the right one, releases the right result if and only if it is
  temporary, and returns the left Symbol, which is still live, holds the copied value and
  is as little temporary as before.
\<close>

theorem Assign_Process:
  assumes "wf_env env" and "wf_state s"
    and "leaves_persistent s c1" and "leaves_persistent s c2"
    and "Process env c1 s = Inr (Some l, s1)" and "persistent s1 l"
    and "Process env c2 s1 = Inr (Some rp, s2)"
    and "heap s2 l = Some lsm" and "heap s2 rp = Some rsm"
    and "CopyValue env lsm rsm = Inr lsm'"
  shows "Process env (ASTNode_Assign [c1, c2]) s =
           Inr (Some l, drop_temporary rp (s2\<lparr>heap := (heap s2)(l \<mapsto> lsm')\<rparr>)) \<and>
         heap (drop_temporary rp (s2\<lparr>heap := (heap s2)(l \<mapsto> lsm')\<rparr>)) l = Some lsm' \<and>
         is_temporary lsm' = is_temporary lsm \<and> \<not> is_temporary lsm \<and>
         (heap (drop_temporary rp (s2\<lparr>heap := (heap s2)(l \<mapsto> lsm')\<rparr>)) rp = None
            \<longleftrightarrow> is_temporary rsm)"
proof -
  let ?s3 = "s2\<lparr>heap := (heap s2)(l \<mapsto> lsm')\<rparr>"
  from Process_frame [OF assms(1,2,3,5)] have f1: "frame s s1" by simp
  have lv2: "leaves_persistent s1 c2" using leaves_persistent_frame [OF assms(4) f1] .
  from Process_frame [OF assms(1) frame_wf [OF f1] lv2 assms(7)]
  have f12: "frame s1 s2" by simp
  have "persistent s2 l" using f12 assms(6) by (simp add: frame_def)
  then have nt: "\<not> is_temporary lsm" using assms(8) by (simp add: persistent_def)
  from CopyValue_flags [OF assms(10)] have fl: "is_temporary lsm' = is_temporary lsm"
    and ns: "\<not> IsScope lsm'" by auto
  have wf3: "wf_state ?s3"
    using frame_wf [OF f12] assms(8) ns by (auto simp: wf_state_def)
  have live: "heap ?s3 rp = Some (if rp = l then lsm' else rsm)"
    using assms(9) by simp
  have rel: "release_if_temporary (Some rp) ?s3 = Inr (drop_temporary rp ?s3)"
    using release_drop [OF wf3 live] .
  have run: "Process env (ASTNode_Assign [c1, c2]) s = Inr (Some l, drop_temporary rp ?s3)"
    using assms(5,7,8,9,10) rel by (simp add: deref_def)
  have keep: "heap (drop_temporary rp ?s3) l = Some lsm'"
    using nt fl by (simp add: drop_temporary_def temporary_at_def)
  have gone: "heap (drop_temporary rp ?s3) rp = None \<longleftrightarrow> is_temporary rsm"
    using nt fl assms(8,9) by (auto simp: drop_temporary_def temporary_at_def)
  show ?thesis using run keep fl nt gone by simp
qed

text \<open>
  \<^verbatim>\<open>X = 9\<close> with X declared as 5: the result is the Symbol that a lookup of X returns,
  before and after, and it holds 9 afterwards.
\<close>

theorem Assign_Process_witness:
  "wf_env strict_env \<and> wf_state assign_state \<and>
   leaves_persistent assign_state (ASTNode_Leaf 1 False) \<and>
   leaves_persistent assign_state (ASTNode_Leaf 2 True) \<and>
   persistent assign_state 1 \<and>
   CopyValue strict_env (Symbol_DoubleVar 5 [] (Some 0) ''X'') (Symbol_DoubleVar 9 [] None [])
     = Inr (Symbol_DoubleVar 9 [] (Some 0) ''X'') \<and>
   LookupSymbol 1 assign_state 0 ''X'' True = Inr (Some 1) \<and>
   Process strict_env (ASTNode_Assign [ASTNode_Leaf 1 False, ASTNode_Leaf 2 True]) assign_state =
     Inr (Some 1,
          assign_state\<lparr>heap := (heap assign_state)(1 \<mapsto> Symbol_DoubleVar 9 [] (Some 0) ''X'')\<rparr>) \<and>
   LookupSymbol 1
     (assign_state\<lparr>heap := (heap assign_state)(1 \<mapsto> Symbol_DoubleVar 9 [] (Some 0) ''X'')\<rparr>)
     0 ''X'' True = Inr (Some 1) \<and>
   AsDouble strict_env (Symbol_DoubleVar 9 [] (Some 0) ''X'') = Some 9"
proof -
  have e: "wf_env strict_env" by (rule wf_strict_env)
  have w: "wf_state assign_state"
    by (auto simp: wf_state_def assign_state_def Symbol_DoubleVar_def Symbol_Scope_def
        IsScope_def split: if_splits)
  have l: "leaves_persistent assign_state (ASTNode_Leaf 1 False)"
    "leaves_persistent assign_state (ASTNode_Leaf 2 True)"
    and ps: "persistent assign_state 1"
    by (simp_all add: leaves_persistent_def persistent_def assign_state_def
        Symbol_DoubleVar_def)
  have c: "CopyValue strict_env (Symbol_DoubleVar 5 [] (Some 0) ''X'')
      (Symbol_DoubleVar 9 [] None []) = Inr (Symbol_DoubleVar 9 [] (Some 0) ''X'')"
    by (simp add: CopyValue_def strict_env_def Symbol_DoubleVar_def)
  have h: "heap assign_state 1 = Some (Symbol_DoubleVar 5 [] (Some 0) ''X'')"
    "heap assign_state 2 = Some (Symbol_DoubleVar 9 [] None [])"
    by (simp_all add: assign_state_def)
  have p: "Process strict_env (ASTNode_Leaf 1 False) assign_state = Inr (Some 1, assign_state)"
    "Process strict_env (ASTNode_Leaf 2 True) assign_state = Inr (Some 2, assign_state)"
    by simp_all
  have d: "drop_temporary 2
      (assign_state\<lparr>heap := (heap assign_state)(1 \<mapsto> Symbol_DoubleVar 9 [] (Some 0) ''X'')\<rparr>) =
      assign_state\<lparr>heap := (heap assign_state)(1 \<mapsto> Symbol_DoubleVar 9 [] (Some 0) ''X'')\<rparr>"
    by (simp add: drop_temporary_def temporary_at_def assign_state_def Symbol_DoubleVar_def)
  have k: "LookupSymbol 1 assign_state 0 ''X'' True = Inr (Some 1)"
    "LookupSymbol 1
       (assign_state\<lparr>heap := (heap assign_state)(1 \<mapsto> Symbol_DoubleVar 9 [] (Some 0) ''X'')\<rparr>)
       0 ''X'' True = Inr (Some 1)"
    "AsDouble strict_env (Symbol_DoubleVar 9 [] (Some 0) ''X'') = Some 9"
    by (simp_all add: assign_state_def Symbol_Scope_def Symbol_DoubleVar_def strict_env_def)
  note inst = Assign_Process [OF e w l p(1) ps p(2) h c, unfolded d]
  show ?thesis
    using e w l ps c k inst by (simp del: Process.simps)
qed

section \<open>Binary operators\<close>

text \<open>
  C5. \<open>Process\<close> of a binary operator node with two children evaluates the first child,
  then the second in the store the first left behind, coerces the two results to the
  argument types of the node, applies the closure, releases each input that is temporary,
  and returns a new temporary Symbol that holds the output. Both releases succeed: two
  results of which one is temporary are distinct Symbols.
\<close>

theorem Op2_Process:
  assumes "wf_env env" and "wf_state s"
    and "leaves_persistent s c1" and "leaves_persistent s c2"
    and "Process env c1 s = Inr (Some p1, s1)" and "Process env c2 s1 = Inr (Some p2, s2)"
    and "heap s2 p1 = Some sm1" and "heap s2 p2 = Some sm2"
    and "As env T1 sm1 = Inr v1" and "As env T2 sm2 = Inr v2"
  shows "Process env (ASTNode_Op2 nm T1 T2 f [c1, c2]) s =
           Inr (Some (next_addr s2),
                snd (MakeTempSymbol (f v1 v2) (drop_temporary p2 (drop_temporary p1 s2)))) \<and>
         heap (snd (MakeTempSymbol (f v1 v2) (drop_temporary p2 (drop_temporary p1 s2))))
              (next_addr s2) =
           Some (new_temporary
                  (case f v1 v2 of NDouble d \<Rightarrow> DoubleVar d | NString t \<Rightarrow> StringVar t))"
proof -
  from Process_frame [OF assms(1,2,3,5)] have f1: "frame s s1" and r1: "result_ok s s1 (Some p1)"
    by auto
  have lv2: "leaves_persistent s1 c2" using leaves_persistent_frame [OF assms(4) f1] .
  from Process_frame [OF assms(1) frame_wf [OF f1] lv2 assms(6)]
  have f12: "frame s1 s2" and r2: "result_ok s1 s2 (Some p2)" by auto
  have wf2: "wf_state s2" using frame_wf [OF f12] .
  have rel1: "release_if_temporary (Some p1) s2 = Inr (drop_temporary p1 s2)"
    using release_drop [OF wf2 assms(7)] .
  have "heap (drop_temporary p1 s2) p2 = Some sm2"
  proof (cases "temporary_at s2 p1")
    case True
    then have "p1 \<noteq> p2" using distinct_results [OF f1 r1 f12 r2] by simp
    with True assms(8) show ?thesis by (simp add: drop_temporary_def)
  next
    case False
    with assms(8) show ?thesis by (simp add: drop_temporary_def)
  qed
  from release_drop [OF wf_state_drop [OF wf2] this]
  have rel2: "release_if_temporary (Some p2) (drop_temporary p1 s2) =
      Inr (drop_temporary p2 (drop_temporary p1 s2))" .
  have nx: "next_addr (drop_temporary p2 (drop_temporary p1 s2)) = next_addr s2"
    by (simp add: drop_temporary_def)
  show ?thesis
    using assms(5-10) rel1 rel2 nx
    by (simp add: deref_def MakeTempSymbol_def NewPtr_def)
qed

text \<open>
  \<^verbatim>\<open>3 + 4\<close> with the closure at numbers gives a temporary that holds 7;
  \<^verbatim>\<open>"a" + "b"\<close> with the closure at strings gives one that holds "ab".
\<close>

theorem Op2_Process_witness:
  "wf_env strict_env \<and> wf_state sum_state \<and> wf_state text_state \<and>
   leaves_persistent sum_state (ASTNode_Leaf 0 True) \<and>
   leaves_persistent sum_state (ASTNode_Leaf 1 True) \<and>
   leaves_persistent text_state (ASTNode_Leaf 0 True) \<and>
   leaves_persistent text_state (ASTNode_Leaf 1 True) \<and>
   As strict_env TDouble (Symbol_DoubleVar 3 [] None []) = Inr (NDouble 3) \<and>
   As strict_env TDouble (Symbol_DoubleVar 4 [] None []) = Inr (NDouble 4) \<and>
   As strict_env TString (Symbol_StringVar ''a'' [] None []) = Inr (NString ''a'') \<and>
   As strict_env TString (Symbol_StringVar ''b'' [] None []) = Inr (NString ''b'') \<and>
   Process strict_env
     (ASTNode_Op2 ''+'' TDouble TDouble add_closure [ASTNode_Leaf 0 True, ASTNode_Leaf 1 True])
     sum_state =
     Inr (Some 2, sum_state
       \<lparr>heap := (heap sum_state)(2 \<mapsto> new_temporary (DoubleVar 7)), next_addr := 3\<rparr>) \<and>
   Process strict_env
     (ASTNode_Op2 ''+'' TString TString add_closure [ASTNode_Leaf 0 True, ASTNode_Leaf 1 True])
     text_state =
     Inr (Some 2, text_state
       \<lparr>heap := (heap text_state)(2 \<mapsto> new_temporary (StringVar ''ab'')), next_addr := 3\<rparr>)"
proof -
  have e: "wf_env strict_env" by (rule wf_strict_env)
  have w1: "wf_state sum_state" and w2: "wf_state text_state"
    by (auto simp: wf_state_def sum_state_def text_state_def Symbol_DoubleVar_def
        Symbol_StringVar_def IsScope_def split: if_splits)
  have l: "leaves_persistent sum_state (ASTNode_Leaf 0 True)"
    "leaves_persistent sum_state (ASTNode_Leaf 1 True)"
    "leaves_persistent text_state (ASTNode_Leaf 0 True)"
    "leaves_persistent text_state (ASTNode_Leaf 1 True)"
    by (simp_all add: leaves_persistent_def persistent_def sum_state_def text_state_def
        Symbol_DoubleVar_def Symbol_StringVar_def)
  have a: "As strict_env TDouble (Symbol_DoubleVar 3 [] None []) = Inr (NDouble 3)"
    "As strict_env TDouble (Symbol_DoubleVar 4 [] None []) = Inr (NDouble 4)"
    "As strict_env TString (Symbol_StringVar ''a'' [] None []) = Inr (NString ''a'')"
    "As strict_env TString (Symbol_StringVar ''b'' [] None []) = Inr (NString ''b'')"
    by (simp_all add: As_def strict_env_def Symbol_DoubleVar_def Symbol_StringVar_def)
  have h: "heap sum_state 0 = Some (Symbol_DoubleVar 3 [] None [])"
    "heap sum_state 1 = Some (Symbol_DoubleVar 4 [] None [])"
    "heap text_state 0 = Some (Symbol_StringVar ''a'' [] None [])"
    "heap text_state 1 = Some (Symbol_StringVar ''b'' [] None [])"
    by (simp_all add: sum_state_def text_state_def)
  have p: "Process strict_env (ASTNode_Leaf 0 True) sum_state = Inr (Some 0, sum_state)"
    "Process strict_env (ASTNode_Leaf 1 True) sum_state = Inr (Some 1, sum_state)"
    "Process strict_env (ASTNode_Leaf 0 True) text_state = Inr (Some 0, text_state)"
    "Process strict_env (ASTNode_Leaf 1 True) text_state = Inr (Some 1, text_state)"
    by simp_all
  have d: "drop_temporary 1 (drop_temporary 0 sum_state) = sum_state"
    "drop_temporary 1 (drop_temporary 0 text_state) = text_state"
    by (simp_all add: drop_temporary_def temporary_at_def sum_state_def text_state_def
        Symbol_DoubleVar_def Symbol_StringVar_def)
  have n: "next_addr sum_state = 2" "next_addr text_state = 2"
    by (simp_all add: sum_state_def text_state_def)
  note num = Op2_Process [OF e w1 l(1,2) p(1,2) h(1,2) a(1,2), of "''+''" add_closure,
      unfolded d n]
  note str = Op2_Process [OF e w2 l(3,4) p(3,4) h(3,4) a(3,4), of "''+''" add_closure,
      unfolded d n]
  show ?thesis
    using e w1 w2 l a num str
    by (simp add: n MakeTempSymbol_def NewPtr_def add_closure_def del: Process.simps)
qed

section \<open>Blocks\<close>

text \<open>
  C6. \<open>Process\<close> of a Block returns no Symbol. It evaluates the first child, releases the
  result at once if it is a temporary, and goes on with the remaining children in the
  store so obtained; the release cannot fail. If the children are trees without handoff,
  the live objects after the Block are those before it: allocation and release are
  balanced.
\<close>

theorem Block_Process:
  assumes "wf_env env" and "wf_state s" and "\<forall>t\<in>set (c # rest). leaves_persistent s t"
  shows "Process env (ASTNode_Block scope_ptr []) s = Inr (None, s) \<and>
         (Process env c s = Inr (out, s1) \<longrightarrow>
            Process env (ASTNode_Block scope_ptr (c # rest)) s =
            Process env (ASTNode_Block scope_ptr rest)
              (case out of None \<Rightarrow> s1 | Some p \<Rightarrow> drop_temporary p s1)) \<and>
         (Process env (ASTNode_Block scope_ptr (c # rest)) s = Inr (r, s') \<longrightarrow>
            r = None \<and>
            ((\<forall>t\<in>set (c # rest). no_handoff t) \<longrightarrow> dom (heap s') = dom (heap s)))"
proof -
  have step: "Process env c s = Inr (out, s1) \<longrightarrow>
      Process env (ASTNode_Block scope_ptr (c # rest)) s =
      Process env (ASTNode_Block scope_ptr rest)
        (case out of None \<Rightarrow> s1 | Some p \<Rightarrow> drop_temporary p s1)"
  proof
    assume c: "Process env c s = Inr (out, s1)"
    have "leaves_persistent s c" using assms(3) by simp
    from Process_statements_step [OF assms(1,2) this c, of rest]
    show "Process env (ASTNode_Block scope_ptr (c # rest)) s =
      Process env (ASTNode_Block scope_ptr rest)
        (case out of None \<Rightarrow> s1 | Some p \<Rightarrow> drop_temporary p s1)"
      by (simp del: Process_statements.simps)
  qed
  have fin: "Process env (ASTNode_Block scope_ptr (c # rest)) s = Inr (r, s') \<longrightarrow>
      r = None \<and> ((\<forall>t\<in>set (c # rest). no_handoff t) \<longrightarrow> dom (heap s') = dom (heap s))"
  proof (intro impI conjI)
    assume run: "Process env (ASTNode_Block scope_ptr (c # rest)) s = Inr (r, s')"
    then show "r = None" by (auto split: sum.splits)
    assume nh: "\<forall>t\<in>set (c # rest). no_handoff t"
    from run have "Process_statements env (c # rest) s = Inr s'"
      by (auto simp del: Process_statements.simps split: sum.splits)
    with Process_statements_balanced_all [of env "c # rest" s] assms nh
    show "dom (heap s') = dom (heap s)"
      by (simp add: Process_statements_balanced_def del: Process_statements.simps)
  qed
  show ?thesis using step fin by simp
qed

text \<open>
  The Block whose only statement is \<^verbatim>\<open>2 + 2;\<close>: the sum is allocated at address 1 and
  released within the Block.
\<close>

theorem Block_Process_witness:
  "wf_env strict_env \<and> wf_state owned_state \<and> leaves_persistent owned_state two_plus_two \<and>
   no_handoff two_plus_two \<and>
   Process strict_env two_plus_two owned_state =
     Inr (Some 1, owned_state\<lparr>heap := (heap owned_state)(1 \<mapsto> new_temporary (DoubleVar 4)),
                             next_addr := 2\<rparr>) \<and>
   drop_temporary 1
     (owned_state\<lparr>heap := (heap owned_state)(1 \<mapsto> new_temporary (DoubleVar 4)),
                  next_addr := 2\<rparr>) = owned_state\<lparr>next_addr := 2\<rparr> \<and>
   Process strict_env (ASTNode_Block 0 [two_plus_two]) owned_state =
     Inr (None, owned_state\<lparr>next_addr := 2\<rparr>) \<and>
   dom (heap (owned_state\<lparr>next_addr := 2\<rparr>)) = dom (heap owned_state)"
proof -
  let ?s1 = "owned_state\<lparr>heap := (heap owned_state)(1 \<mapsto> new_temporary (DoubleVar 4)),
                             next_addr := 2\<rparr>"
  have e: "wf_env strict_env" by (rule wf_strict_env)
  have w: "wf_state owned_state"
    by (auto simp: wf_state_def owned_state_def new_temporary_def split: if_splits)
  have l: "leaves_persistent owned_state two_plus_two"
    by (simp add: leaves_persistent_def persistent_def owned_state_def two_plus_two_def
        new_temporary_def)
  have l': "\<forall>t\<in>set [two_plus_two]. leaves_persistent owned_state t" using l by simp
  have n: "no_handoff two_plus_two" by (simp add: two_plus_two_def)
  have p: "Process strict_env two_plus_two owned_state = Inr (Some 1, ?s1)"
    by (simp add: example_defs eval_defs)
  have d: "drop_temporary 1 ?s1 = owned_state\<lparr>next_addr := 2\<rparr>"
    by (simp add: drop_temporary_def temporary_at_def owned_state_def new_temporary_def)
  note inst = Block_Process [OF e w l', where out = "Some 1" and ?s1.0 = ?s1
      and scope_ptr = 0 and r = None and s' = "owned_state\<lparr>next_addr := 2\<rparr>"]
  have b: "Process strict_env (ASTNode_Block 0 [two_plus_two]) owned_state =
     Inr (None, owned_state\<lparr>next_addr := 2\<rparr>)"
    using inst p d by (simp del: Process.simps add: Process.simps(2))
  show ?thesis
    using e w l n p d b inst by (simp del: Process.simps)
qed

section \<open>Leaves\<close>

text \<open>
  C7. The constructor of a leaf over a live Symbol records in \<open>own_symbol\<close> whether the
  Symbol was temporary, and clears the flag: the Symbol is persistent from then on, and the
  destructor of the leaf releases it exactly when it was temporary at attachment.
  \<open>Process\<close> of a leaf returns the wrapped Symbol and leaves the state as it is, so it
  allocates nothing. The flag stays cleared: evaluation of any tree from a well-formed
  store keeps a persistent Symbol live and persistent.
\<close>

theorem Leaf_ownership:
  assumes "heap s p = Some sm"
  shows "new_ASTNode_Leaf p s =
           Inr (ASTNode_Leaf p (is_temporary sm),
                s\<lparr>heap := (heap s)(p \<mapsto> sm\<lparr>is_temporary := False\<rparr>)\<rparr>) \<and>
         persistent (s\<lparr>heap := (heap s)(p \<mapsto> sm\<lparr>is_temporary := False\<rparr>)\<rparr>) p \<and>
         Delete_node (ASTNode_Leaf p (is_temporary sm)) s1 =
           (if is_temporary sm then Delete p s1 else Inr s1) \<and>
         Process env (ASTNode_Leaf p own) s1 = Inr (Some p, s1) \<and>
         (wf_env env \<and> wf_state s1 \<and> leaves_persistent s1 t \<and> persistent s1 p \<and>
          Process env t s1 = Inr (r, s2) \<longrightarrow> persistent s2 p)"
proof -
  have "wf_env env \<and> wf_state s1 \<and> leaves_persistent s1 t \<and> persistent s1 p \<and>
          Process env t s1 = Inr (r, s2) \<longrightarrow> persistent s2 p"
    using Process_frame [of env s1 t r s2] by (auto simp: frame_def)
  then show ?thesis
    using assms by (simp add: new_ASTNode_Leaf_def persistent_def)
qed

text \<open>
  The literal 2: the leaf built over the temporary owns it and clears the flag, and a
  second leaf over the same Symbol does not own it; the leaf returns it; evaluating
  \<^verbatim>\<open>2 + 2\<close> over the leaf leaves it persistent; deleting the leaf releases it.
\<close>

theorem Leaf_ownership_witness:
  "heap literal_state 0 = Some (new_temporary (DoubleVar 2)) \<and>
   new_ASTNode_Leaf 0 literal_state = Inr (ASTNode_Leaf 0 True, owned_state) \<and>
   new_ASTNode_Leaf 0 owned_state = Inr (ASTNode_Leaf 0 False, owned_state) \<and>
   persistent owned_state 0 \<and>
   Delete_node (ASTNode_Leaf 0 True) owned_state =
     Inr (owned_state\<lparr>heap := (heap owned_state)(0 := None)\<rparr>) \<and>
   Process strict_env (ASTNode_Leaf 0 True) owned_state = Inr (Some 0, owned_state) \<and>
   wf_env strict_env \<and> wf_state owned_state \<and> leaves_persistent owned_state two_plus_two \<and>
   Process strict_env two_plus_two owned_state =
     Inr (Some 1, owned_state\<lparr>heap := (heap owned_state)(1 \<mapsto> new_temporary (DoubleVar 4)),
                             next_addr := 2\<rparr>) \<and>
   persistent (owned_state\<lparr>heap := (heap owned_state)(1 \<mapsto> new_temporary (DoubleVar 4)),
                           next_addr := 2\<rparr>) 0"
proof -
  have h: "heap literal_state 0 = Some (new_temporary (DoubleVar 2))"
    by (simp add: literal_state_def)
  have o: "literal_state\<lparr>heap := (heap literal_state)
      (0 \<mapsto> new_temporary (DoubleVar 2)\<lparr>is_temporary := False\<rparr>)\<rparr> = owned_state"
    by (simp add: literal_state_def owned_state_def)
  have t: "is_temporary (new_temporary (DoubleVar 2))" by (simp add: new_temporary_def)
  have again: "new_ASTNode_Leaf 0 owned_state = Inr (ASTNode_Leaf 0 False, owned_state)"
    by (simp add: new_ASTNode_Leaf_def owned_state_def new_temporary_def)
  have e: "wf_env strict_env" by (rule wf_strict_env)
  have w: "wf_state owned_state"
    by (auto simp: wf_state_def owned_state_def new_temporary_def split: if_splits)
  have l: "leaves_persistent owned_state two_plus_two"
    by (simp add: leaves_persistent_def persistent_def owned_state_def two_plus_two_def
        new_temporary_def)
  have d: "Delete 0 owned_state = Inr (owned_state\<lparr>heap := (heap owned_state)(0 := None)\<rparr>)"
    by (rule Delete_variable [of _ _ "new_temporary (DoubleVar 2) \<lparr>is_temporary := False\<rparr>"])
      (simp_all add: owned_state_def IsScope_def new_temporary_def)
  have p: "Process strict_env two_plus_two owned_state =
     Inr (Some 1, owned_state\<lparr>heap := (heap owned_state)(1 \<mapsto> new_temporary (DoubleVar 4)),
                             next_addr := 2\<rparr>)"
    by (simp add: example_defs eval_defs)
  note inst = Leaf_ownership [OF h, where ?s1.0 = owned_state and env = strict_env
      and own = True and t = two_plus_two and r = "Some 1"
      and ?s2.0 = "owned_state\<lparr>heap := (heap owned_state)(1 \<mapsto> new_temporary (DoubleVar 4)),
                     next_addr := 2\<rparr>", unfolded o]
  show ?thesis
    using h e w l p t d again inst by (simp del: Process.simps Delete_node.simps)
qed


section \<open>Declarations\<close>

text \<open>
  C8. Declaring a name that the scope does not hold yet succeeds; the new entry is the
  object the constructor built, and a lookup of the name in that scope returns it,
  scanning or not. Declaring the same name again fails the assertion: the result is the
  error alone, with no state to continue from. (The allocator hands out an address other
  than the scope's own.)
\<close>

theorem Add_then_lookup:
  assumes "heap s this = Some sc" and "content sc = Scope tbl obj owned"
    and "map_of tbl nm = None" and "this \<noteq> next_addr s"
  shows "case Add this nm ctor s of
           Inl e \<Rightarrow> False
         | Inr (p, s') \<Rightarrow>
             p = next_addr s \<and> heap s' p = Some (ctor nm) \<and>
             LookupSymbol (Suc n) s' this nm scan_scopes = Inr (Some p) \<and>
             Add this nm ctor' s' = Inl AssertFail"
  using assms by (simp add: Add_def NewPtr_def update_conv')

text \<open>
  Declaring the numeric variable Y in the innermost scope of \<open>nested_state\<close>, looking it
  up, and declaring a string variable of the same name.
\<close>

theorem Add_then_lookup_witness:
  "heap nested_state 2 = Some (Symbol_Scope [] (Some 1) None False ''S1'') \<and>
   content (Symbol_Scope [] (Some 1) None False ''S1'') = Scope [] None False \<and>
   map_of [] ''Y'' = (None :: addr option) \<and> 2 \<noteq> next_addr nested_state \<and>
   (case AddValueVar 2 ''Y'' [] nested_state of
      Inl e \<Rightarrow> False
    | Inr (p, s') \<Rightarrow>
        p = 4 \<and> heap s' p = Some (Symbol_DoubleVar 0 [] (Some 2) ''Y'') \<and>
        LookupSymbol 1 s' 2 ''Y'' False = Inr (Some p) \<and>
        AddStringVar 2 ''Y'' [] s' = Inl AssertFail)"
  using Add_then_lookup [of nested_state 2 "Symbol_Scope [] (Some 1) None False ''S1''"
      "[]" None False "''Y''" "Symbol_DoubleVar 0 [] (Some 2)" 0 False
      "Symbol_StringVar [] [] (Some 2)"]
  by (simp add: nested_state_def Symbol_Scope_def Symbol_DoubleVar_def Symbol_StringVar_def
      AddValueVar_def AddStringVar_def Add_def NewPtr_def)

section \<open>Name resolution\<close>

text \<open>
  C9. On a chain of scopes that ends in a root, \<open>LookupSymbol\<close> returns, with scanning
  enabled, the entry of the nearest scope of the chain that declares the name, and the
  not-found sentinel if none does; with scanning disabled it consults the local table only.
  It returns a value in every case, never an error, as soon as the fuel covers the length
  of the chain.
\<close>

theorem LookupSymbol_resolves:
  assumes "scope_chain s a rest" and "length rest < n"
  shows "LookupSymbol n s a nm True = Inr (first_declared s (a # rest) nm) \<and>
         LookupSymbol n s a nm False = Inr (first_declared s [a] nm)"
proof -
  from assms(2) obtain m where "n = Suc m" by (cases n) auto
  then show ?thesis
    using LookupSymbol_chain [OF assms] LookupSymbol_local [OF assms(1), of m nm] by simp
qed

text \<open>
  With S1 inside S2 inside the root S3 and X declared in S3 only, the lookup of X from S1
  finds X when it scans and reports not-found when it does not.
\<close>

theorem LookupSymbol_resolves_witness:
  "scope_chain nested_state 2 [1, 0] \<and> length [1, 0 :: addr] < 3 \<and>
   LookupSymbol 3 nested_state 2 ''X'' True = Inr (Some 3) \<and>
   LookupSymbol 3 nested_state 2 ''X'' False = Inr None"
  using LookupSymbol_resolves [of nested_state 2 "[1, 0]" 3 "''X''"]
  by (simp add: nested_state_def Symbol_Scope_def Symbol_DoubleVar_def IsScope_def)

section \<open>Calls\<close>

text \<open>
  C10. \<open>Process\<close> of a Call node releases among the Symbols involved only results of
  the argument children, and only temporary ones. The Symbol the callee child returned is
  live after the call; if it was temporary it is still the same temporary Symbol.
\<close>

theorem Call_keeps_callee:
  assumes "wf_env env" and "wf_state s" and "leaves_persistent s (ASTNode_Call (c # rest))"
    and "Process env c s = Inr (Some fp, s1)"
    and "Process_args env rest s1 = Inr (args, s2)"
    and "Call env (Some fp) args s2 = Inr (r, s3)"
    and "release_args args s3 = Inr s'"
  shows "Process env (ASTNode_Call (c # rest)) s = Inr (r, s') \<and>
         heap s' fp \<noteq> None \<and>
         (temporary_at s1 fp \<longrightarrow> heap s' fp = heap s1 fp) \<and>
         (\<forall>a. heap s3 a \<noteq> None \<and> heap s' a = None \<longrightarrow>
              Some a \<in> set args \<and> temporary_at s3 a)"
proof -
  have lvc: "leaves_persistent s c" and lvr: "\<forall>t\<in>set rest. leaves_persistent s t"
    using assms(3) by (simp_all add: leaves_persistent_children)
  from Process_frame [OF assms(1,2) lvc assms(4)]
  have f1: "frame s s1" and r1: "result_ok s s1 (Some fp)" by auto
  have lv1: "\<forall>t\<in>set rest. leaves_persistent s1 t"
    using lvr leaves_persistent_frame [OF _ f1] by blast
  from Process_args_frame [OF assms(1) frame_wf [OF f1] lv1 assms(5)]
  have f12: "frame s1 s2" and ra: "\<forall>r\<in>set args. result_ok s1 s2 r" by auto
  from Call_result [OF assms(1) frame_wf [OF f12] assms(6)]
  have f23: "frame s2 s3" by simp
  have f13: "frame s1 s3" using frame_trans [OF f12 f23] .
  have "\<forall>r\<in>set args. releasable s1 s3 r"
    using ra result_ok_later [OF _ f23] result_ok_releasable by blast
  from release_args_frame [OF f13 this assms(7)]
  have f: "frame s1 s'" and keep: "\<forall>a. Some a \<notin> set args \<longrightarrow> heap s' a = heap s3 a" by auto
  have run: "Process env (ASTNode_Call (c # rest)) s = Inr (r, s')"
    using assms(4-7) by simp
  have old: "temporary_at s1 fp \<longrightarrow> heap s' fp = heap s1 fp"
    using f by (auto simp: frame_def temporary_at_def split: option.splits)
  have live: "heap s' fp \<noteq> None"
  proof (cases "persistent s1 fp")
    case True
    then have "persistent s' fp" using f by (simp add: frame_def)
    then show ?thesis by (auto simp: persistent_def split: option.splits)
  next
    case False
    then have "temporary_at s1 fp"
      using result_live [OF r1] by (auto simp: persistent_def temporary_at_def)
    with old show ?thesis by (auto simp: temporary_at_def split: option.splits)
  qed
  have rel: "\<forall>a. heap s3 a \<noteq> None \<and> heap s' a = None \<longrightarrow>
      Some a \<in> set args \<and> temporary_at s3 a"
  proof (intro allI impI)
    fix a assume a: "heap s3 a \<noteq> None \<and> heap s' a = None"
    then have in_args: "Some a \<in> set args" using keep by force
    have "\<not> persistent s3 a"
      using release_args_persistent [OF frame_wf [OF f23] assms(7), of a] a
      by (auto simp: persistent_def)
    with a have "temporary_at s3 a"
      by (auto simp: persistent_def temporary_at_def split: option.splits)
    with in_args show "Some a \<in> set args \<and> temporary_at s3 a" by simp
  qed
  show ?thesis using run live old rel by blast
qed

text \<open>
  \<^verbatim>\<open>MakeFn()(-3)\<close>: the function that MakeFn returned is a temporary at address 3; the
  argument at address 4 is released by the cleanup, the callee at 3 is not and stays in the
  store.
\<close>

theorem Call_keeps_callee_witness:
  "wf_env strict_env \<and> wf_state callee_state \<and>
   leaves_persistent callee_state
     (ASTNode_Call [ASTNode_Call [ASTNode_Leaf 1 False],
                    ASTNode_Math1 ''-'' uminus [ASTNode_Leaf 2 True]]) \<and>
   Process strict_env (ASTNode_Call [ASTNode_Leaf 1 False]) callee_state =
     Inr (Some 3, callee_state1) \<and>
   Process_args strict_env [ASTNode_Math1 ''-'' uminus [ASTNode_Leaf 2 True]] callee_state1 =
     Inr ([Some 4], callee_state2) \<and>
   Call strict_env (Some 3) [Some 4] callee_state2 = Inr (Some 5, callee_state3) \<and>
   release_args [Some 4] callee_state3 = Inr callee_state4 \<and>
   Process strict_env
     (ASTNode_Call [ASTNode_Call [ASTNode_Leaf 1 False],
                    ASTNode_Math1 ''-'' uminus [ASTNode_Leaf 2 True]])
     callee_state = Inr (Some 5, callee_state4) \<and>
   temporary_at callee_state1 3 \<and>
   heap callee_state4 3 = Some (new_temporary (Function 2)) \<and>
   heap callee_state3 4 = Some (new_temporary (DoubleVar (- 3))) \<and>
   heap callee_state4 4 = None"
proof -
  have e: "wf_env strict_env" by (rule wf_strict_env)
  have w: "wf_state callee_state"
    by (auto simp: wf_state_def callee_state_def Symbol_DoubleVar_def Symbol_Function_def
        Symbol_Scope_def IsScope_def split: if_splits)
  have l: "leaves_persistent callee_state
     (ASTNode_Call [ASTNode_Call [ASTNode_Leaf 1 False],
                    ASTNode_Math1 ''-'' uminus [ASTNode_Leaf 2 True]])"
    by (simp add: leaves_persistent_def persistent_def callee_state_def Symbol_DoubleVar_def
        Symbol_Function_def)
  have c: "Process strict_env (ASTNode_Call [ASTNode_Leaf 1 False]) callee_state =
     Inr (Some 3, callee_state1)"
    by (simp add: example_defs eval_defs)
  have a: "Process_args strict_env [ASTNode_Math1 ''-'' uminus [ASTNode_Leaf 2 True]]
      callee_state1 = Inr ([Some 4], callee_state2)"
    by (simp add: example_defs eval_defs)
  have k: "Call strict_env (Some 3) [Some 4] callee_state2 = Inr (Some 5, callee_state3)"
    by (simp add: example_defs eval_defs)
  have r: "release_args [Some 4] callee_state3 = Inr callee_state4"
    by (simp add: example_defs eval_defs)
  have t: "temporary_at callee_state1 3"
    "heap callee_state1 3 = Some (new_temporary (Function 2))"
    "heap callee_state3 4 = Some (new_temporary (DoubleVar (- 3)))"
    "heap callee_state4 4 = None"
    by (simp_all add: temporary_at_def callee_state1_def callee_state2_def callee_state3_def
        callee_state4_def new_temporary_def)
  note inst = Call_keeps_callee [OF e w l c a k r]
  show ?thesis
    using e w l c a k r t inst by (simp del: Process.simps)
qed

end
